theory Spec2Isabelle
  imports Complex_Main "HOL-Library.AList"
begin

section \<open>Python values held by configuration fields\<close>

text \<open>
  The fields of a configuration object hold ordinary Python values.  The values modelled
  here are the ones that the JSON encoder accepts within the limits of the interpreter
  (\<open>None\<close>, booleans, integers of any size, finite floats, strings, lists, tuples and
  dictionaries with string keys), the members of the enumerations of \<open>choices.py\<close>,
  which the encoder rejects, and references to other \<open>BaseConfig\<close> instances.  A finite
  float is carried as the rational number it denotes; no arithmetic is done on it.
  Lists, tuples and dictionaries are values: they contain no instance references.
\<close>

datatype pydata =
    PNone
  | PBool bool
  | PInt int
  | PFloat rat
  | PStr string
  | PList "pydata list"
  | PTuple "pydata list"
  | PDict "(string \<times> pydata) list"
  | PEnum string string

datatype error =
    ValueError string
  | KeyError string
  | AttributeError string
  | TypeError
  | NotImplementedError
  | RecursionError
  | FileNotFoundError string
  | FileExistsError string
  | IsADirectoryError string
  | NotADirectoryError string
  | PermissionError string
  | JSONDecodeError

section \<open>choices.py: the activation enumeration\<close>

text \<open>
  An enumeration member is identified by the name of its class and its own name, as in
  \<open>PEnum ''Activation'' ''relu''\<close>.  \<open>get_act\<close> compares its receiver with the five
  members of \<open>Activation\<close> in turn; the modules it returns are described by their class
  and constructor argument.
\<close>

datatype nn_module = Identity | ReLU | LeakyReLU rat | SiLU | Tanh

type_synonym member = "string \<times> string"

definition Activation_none :: member where "Activation_none = (''Activation'', ''none'')"
definition Activation_relu :: member where "Activation_relu = (''Activation'', ''relu'')"
definition Activation_lrelu :: member where "Activation_lrelu = (''Activation'', ''lrelu'')"
definition Activation_silu :: member where "Activation_silu = (''Activation'', ''silu'')"
definition Activation_tanh :: member where "Activation_tanh = (''Activation'', ''tanh'')"

definition get_act :: "member \<Rightarrow> error + nn_module" where
  "get_act self =
     (if self = Activation_none then Inr Identity
      else if self = Activation_relu then Inr ReLU
      else if self = Activation_lrelu then Inr (LeakyReLU (2 / 10))
      else if self = Activation_silu then Inr SiLU
      else if self = Activation_tanh then Inr Tanh
      else Inl NotImplementedError)"

section \<open>config_base.py: configuration objects on a heap\<close>

text \<open>
  A \<open>BaseConfig\<close> instance is a mutable object: \<open>inherit\<close> stores references to
  the same nested instance in two places, and \<open>from_dict\<close> updates nested instances in
  place.  Instances therefore live on a heap, a list indexed by address, and a field holds
  either a plain value or the address of an instance.  An instance carries its
  \<open>__dict__\<close> as an association list in insertion order, and the names that attribute
  lookup finds on its class beyond the methods that \<open>BaseConfig\<close> defines (what it
  inherits from \<open>object\<close>, and the methods, properties and class attributes of a
  subclass).
\<close>

type_synonym addr = nat

datatype pyval = Data pydata | Node addr

record pyobj =
  attrs :: "(string \<times> pyval) list"
  class_attrs :: "string list"

type_synonym heap = "pyobj list"

definition keys :: "pyobj \<Rightarrow> string list" where
  "keys obj = map fst (attrs obj)"

definition getitem :: "pyobj \<Rightarrow> string \<Rightarrow> pyval option" where
  "getitem obj k = map_of (attrs obj) k"

definition setitem :: "heap \<Rightarrow> addr \<Rightarrow> string \<Rightarrow> pyval \<Rightarrow> heap" where
  "setitem h a k v = h[a := (h ! a)\<lparr>attrs := AList.update k v (attrs (h ! a))\<rparr>]"

definition BaseConfig_methods :: "string list" where
  "BaseConfig_methods =
     [''clone'', ''inherit'', ''propagate'', ''save'', ''load'', ''from_dict'',
      ''as_dict_jsonable'']"

definition hasattr :: "pyobj \<Rightarrow> string \<Rightarrow> bool" where
  "hasattr obj k \<longleftrightarrow>
     k \<in> set (keys obj) \<or> k \<in> set BaseConfig_methods \<or> k \<in> set (class_attrs obj)"

subsection \<open>inherit\<close>

text \<open>
  \<open>common_keys\<close> is a Python set, whose iteration order is not fixed; \<open>inherit_keys\<close>
  runs the loop over the keys in a given order, and \<open>inherit\<close> takes them in the order
  of \<open>self.__dict__\<close>.
\<close>

definition common_keys :: "pyobj \<Rightarrow> pyobj \<Rightarrow> string list" where
  "common_keys s t = filter (\<lambda>k. k \<in> set (keys t)) (keys s)"

fun inherit_keys :: "heap \<Rightarrow> addr \<Rightarrow> addr \<Rightarrow> string list \<Rightarrow> error + heap" where
  "inherit_keys h self another [] = Inr h"
| "inherit_keys h self another (k # ks) =
     (case getitem (h ! another) k of
        None \<Rightarrow> Inl (AttributeError k)
      | Some v \<Rightarrow> inherit_keys (setitem h self k v) self another ks)"

definition inherit :: "heap \<Rightarrow> addr \<Rightarrow> addr \<Rightarrow> error + heap" where
  "inherit h self another =
     inherit_keys h self another (common_keys (h ! self) (h ! another))"

subsection \<open>propagate\<close>

text \<open>
  The loop runs over the items of \<open>self.__dict__\<close>; the keys are those present when the
  loop starts (no key is ever added or removed), and each value is read when the loop
  reaches its key.  The recursion follows references and need not end: the first argument
  bounds its depth, and \<open>None\<close> is the run that exceeds every bound.
\<close>

fun propagate_items ::
  "(heap \<Rightarrow> addr \<Rightarrow> (error + heap) option) \<Rightarrow> heap \<Rightarrow> addr \<Rightarrow> string list
    \<Rightarrow> (error + heap) option" where
  "propagate_items rec h self [] = Some (Inr h)"
| "propagate_items rec h self (k # ks) =
     (case getitem (h ! self) k of
        Some (Node v) \<Rightarrow>
          (case inherit h v self of
             Inl e \<Rightarrow> Some (Inl e)
           | Inr h1 \<Rightarrow>
               (case rec h1 v of
                  None \<Rightarrow> None
                | Some (Inl e) \<Rightarrow> Some (Inl e)
                | Some (Inr h2) \<Rightarrow> propagate_items rec h2 self ks))
      | _ \<Rightarrow> propagate_items rec h self ks)"

primrec propagate :: "nat \<Rightarrow> heap \<Rightarrow> addr \<Rightarrow> (error + heap) option" where
  "propagate 0 h self = None"
| "propagate (Suc n) h self = propagate_items (propagate n) h self (keys (h ! self))"

subsection \<open>from_dict\<close>

text \<open>
  \<open>from_dict\<close> changes the instance as it goes, so a run that raises leaves the changes
  made before the exception.  A run yields the heap, the lines printed so far and the
  exception raised, if any.  The lookup \<open>self.__dict__[k]\<close> raises \<open>KeyError\<close> for a name
  that \<open>hasattr\<close> finds on the class only, and \<open>v.items()\<close> in the recursive call raises
  \<open>AttributeError\<close> when \<open>v\<close> is not a dictionary.
\<close>

definition extra_msg :: "string \<Rightarrow> string" where
  "extra_msg k = ''loading extra '' @ [CHR 0x27] @ k @ [CHR 0x27]"

function from_dict ::
  "heap \<Rightarrow> string list \<Rightarrow> addr \<Rightarrow> (string \<times> pydata) list \<Rightarrow> bool
    \<Rightarrow> heap \<times> string list \<times> error option" where
  "from_dict h out self [] strict = (h, out, None)"
| "from_dict h out self ((k, v) # kvs) strict =
     (if \<not> hasattr (h ! self) k then
        (if strict then (h, out, Some (ValueError (extra_msg k)))
         else from_dict h (out @ [extra_msg k]) self kvs strict)
      else
        (case getitem (h ! self) k of
           None \<Rightarrow> (h, out, Some (KeyError k))
         | Some (Node b) \<Rightarrow>
             (case v of
                PDict sub \<Rightarrow>
                  (case from_dict h out b sub False of
                     (h1, out1, Some e) \<Rightarrow> (h1, out1, Some e)
                   | (h1, out1, None) \<Rightarrow> from_dict h1 out1 self kvs strict)
              | _ \<Rightarrow> (h, out, Some (AttributeError ''items'')))
         | Some (Data old) \<Rightarrow> from_dict (setitem h self k (Data v)) out self kvs strict))"
  by pat_completeness auto
termination
  by (relation "measure (\<lambda>(h, out, self, d, strict). size_list (size_prod (\<lambda>_. 0) size) d)")
    auto

subsection \<open>as_dict_jsonable\<close>

text \<open>
  \<open>jsonable\<close> calls \<open>json.dumps\<close> and catches \<open>TypeError\<close> only.  The encoder raises
  \<open>TypeError\<close> for an enumeration member, \<open>ValueError\<close> for an integer with more decimal
  digits than the interpreter converts to text (\<open>sys.get_int_max_str_digits()\<close>, where 0
  stands for no limit), and \<open>RecursionError\<close> for containers nested deeper than the
  interpreter's stack allows.  It works left to right and stops at the first of them, so
  \<open>dumps_error\<close> gives the exception that \<open>json.dumps\<close> raises, if any; \<open>jsonable\<close> turns
  \<open>TypeError\<close> into \<open>False\<close> and lets every other exception through, and so does
  \<open>as_dict_jsonable\<close>.  The two limits are settings of the interpreter and are
  parameters here; \<open>cpython_limits\<close> has the values of a default CPython 3.11.
\<close>

record limits =
  max_str_digits :: nat
  max_depth :: nat

definition cpython_limits :: limits where
  "cpython_limits = \<lparr>max_str_digits = 4300, max_depth = 1000\<rparr>"

fun first_error :: "error option list \<Rightarrow> error option" where
  "first_error [] = None"
| "first_error (None # es) = first_error es"
| "first_error (Some e # es) = Some e"

fun dumps_error :: "limits \<Rightarrow> nat \<Rightarrow> pydata \<Rightarrow> error option" where
  "dumps_error lims d (PInt i) =
     (if max_str_digits lims \<noteq> 0 \<and> 10 ^ max_str_digits lims \<le> \<bar>i\<bar>
      then Some (ValueError ''Exceeds the limit for integer string conversion'')
      else None)"
| "dumps_error lims d (PEnum c m) = Some TypeError"
| "dumps_error lims d (PList xs) =
     (if max_depth lims \<le> d then Some RecursionError
      else first_error (map (dumps_error lims (Suc d)) xs))"
| "dumps_error lims d (PTuple xs) =
     (if max_depth lims \<le> d then Some RecursionError
      else first_error (map (dumps_error lims (Suc d)) xs))"
| "dumps_error lims d (PDict kvs) =
     (if max_depth lims \<le> d then Some RecursionError
      else first_error (map (\<lambda>kv. dumps_error lims (Suc d) (snd kv)) kvs))"
| "dumps_error lims d v = None"

definition jsonable :: "limits \<Rightarrow> pydata \<Rightarrow> error + bool" where
  "jsonable lims x =
     (case dumps_error lims 0 x of
        None \<Rightarrow> Inr True
      | Some TypeError \<Rightarrow> Inr False
      | Some e \<Rightarrow> Inl e)"

fun as_dict_items ::
  "limits \<Rightarrow> (addr \<Rightarrow> (error + pydata) option) \<Rightarrow> (string \<times> pydata) list
    \<Rightarrow> (string \<times> pyval) list \<Rightarrow> (error + (string \<times> pydata) list) option" where
  "as_dict_items lims rec conf [] = Some (Inr conf)"
| "as_dict_items lims rec conf ((k, Node b) # kvs) =
     (case rec b of
        None \<Rightarrow> None
      | Some (Inl e) \<Rightarrow> Some (Inl e)
      | Some (Inr d) \<Rightarrow> as_dict_items lims rec (AList.update k d conf) kvs)"
| "as_dict_items lims rec conf ((k, Data v) # kvs) =
     (case jsonable lims v of
        Inl e \<Rightarrow> Some (Inl e)
      | Inr True \<Rightarrow> as_dict_items lims rec (AList.update k v conf) kvs
      | Inr False \<Rightarrow> as_dict_items lims rec conf kvs)"

primrec as_dict_jsonable :: "nat \<Rightarrow> limits \<Rightarrow> heap \<Rightarrow> addr \<Rightarrow> (error + pydata) option" where
  "as_dict_jsonable 0 lims h self = None"
| "as_dict_jsonable (Suc n) lims h self =
     (case as_dict_items lims (as_dict_jsonable n lims h) [] (attrs (h ! self)) of
        None \<Rightarrow> None
      | Some (Inl e) \<Rightarrow> Some (Inl e)
      | Some (Inr conf) \<Rightarrow> Some (Inr (PDict conf)))"

subsection \<open>save and load\<close>

text \<open>
  The file system is a list of existing directories, the existing files with their
  content, and the paths that the process may not create or write.  Paths are compared as
  strings.  The text that \<open>json.dump\<close> writes is represented by the value that
  \<open>json.load\<close> reads back from it: \<open>json_value\<close> turns tuples into lists and keeps
  everything else.  \<open>os_path_split\<close> follows \<open>posixpath.split\<close>; \<open>os_makedirs\<close> creates
  the missing directories on the way to its argument and, like \<open>os.mkdir\<close>, fails on the
  empty path and on an existing one.  An exception of \<open>as_dict_jsonable\<close> leaves \<open>save\<close>
  before the file is opened; an exception of \<open>json.dump\<close> leaves it with the file opened
  and no complete JSON text in it.
\<close>

datatype content = Json pydata | NotJson

record filesys =
  dirs :: "string list"
  files :: "(string \<times> content) list"
  denied :: "string list"

fun json_value :: "pydata \<Rightarrow> pydata" where
  "json_value (PList xs) = PList (map json_value xs)"
| "json_value (PTuple xs) = PList (map json_value xs)"
| "json_value (PDict kvs) = PDict (map (\<lambda>kv. (fst kv, json_value (snd kv))) kvs)"
| "json_value v = v"

definition json_dump :: "limits \<Rightarrow> pydata \<Rightarrow> error + content" where
  "json_dump lims v =
     (case dumps_error lims 0 v of
        None \<Rightarrow> Inr (Json (json_value v))
      | Some e \<Rightarrow> Inl e)"

definition rstrip_sep :: "string \<Rightarrow> string" where
  "rstrip_sep p = rev (dropWhile (\<lambda>c. c = CHR ''/'') (rev p))"

definition os_path_split :: "string \<Rightarrow> string \<times> string" where
  "os_path_split p =
     (let tail = rev (takeWhile (\<lambda>c. c \<noteq> CHR ''/'') (rev p));
          head = rev (dropWhile (\<lambda>c. c \<noteq> CHR ''/'') (rev p))
      in (if head \<noteq> [] \<and> \<not> list_all (\<lambda>c. c = CHR ''/'') head then rstrip_sep head else head,
          tail))"

definition os_path_dirname :: "string \<Rightarrow> string" where
  "os_path_dirname p = fst (os_path_split p)"

definition os_path_exists :: "filesys \<Rightarrow> string \<Rightarrow> bool" where
  "os_path_exists fs p \<longleftrightarrow> p \<noteq> [] \<and> (p \<in> set (dirs fs) \<or> p \<in> set (map fst (files fs)))"

definition ancestors :: "string \<Rightarrow> string list" where
  "ancestors name =
     [take i name. i \<leftarrow> [1..<length name], name ! i = CHR ''/'' \<and> name ! (i - 1) \<noteq> CHR ''/'']"

definition os_makedirs :: "filesys \<Rightarrow> string \<Rightarrow> filesys \<times> error option" where
  "os_makedirs fs name =
     (let missing = filter (\<lambda>p. p \<notin> set (dirs fs)) (ancestors name @ [name]) in
      if name = [] then (fs, Some (FileNotFoundError name))
      else if os_path_exists fs name then (fs, Some (FileExistsError name))
      else if list_ex (\<lambda>p. p \<in> set (map fst (files fs))) missing
        then (fs, Some (NotADirectoryError name))
      else if list_ex (\<lambda>p. p \<in> set (denied fs)) missing
        then (fs, Some (PermissionError name))
      else (fs\<lparr>dirs := dirs fs @ missing\<rparr>, None))"

definition open_w :: "filesys \<Rightarrow> string \<Rightarrow> filesys \<times> error option" where
  "open_w fs p =
     (if p = [] then (fs, Some (FileNotFoundError p))
      else if p \<in> set (dirs fs) \<or> snd (os_path_split p) = [] then (fs, Some (IsADirectoryError p))
      else if os_path_dirname p \<noteq> [] \<and> os_path_dirname p \<notin> set (dirs fs)
        then (fs, Some (FileNotFoundError p))
      else if p \<in> set (denied fs) then (fs, Some (PermissionError p))
      else (fs\<lparr>files := AList.update p NotJson (files fs)\<rparr>, None))"

definition save ::
  "nat \<Rightarrow> limits \<Rightarrow> heap \<Rightarrow> addr \<Rightarrow> string \<Rightarrow> filesys
    \<Rightarrow> (filesys \<times> error option) option" where
  "save n lims h self save_path fs =
     (let dirname = os_path_dirname save_path;
          (fs1, e1) = (if \<not> os_path_exists fs dirname then os_makedirs fs dirname
                       else (fs, None))
      in case e1 of
           Some e \<Rightarrow> Some (fs1, Some e)
         | None \<Rightarrow>
             (case as_dict_jsonable n lims h self of
                None \<Rightarrow> None
              | Some (Inl e) \<Rightarrow> Some (fs1, Some e)
              | Some (Inr conf) \<Rightarrow>
                  (case open_w fs1 save_path of
                     (fs2, Some e) \<Rightarrow> Some (fs2, Some e)
                   | (fs2, None) \<Rightarrow>
                       (case json_dump lims conf of
                          Inl e \<Rightarrow> Some (fs2, Some e)
                        | Inr text \<Rightarrow>
                            Some (fs2\<lparr>files := AList.update save_path text (files fs2)\<rparr>,
                                  None)))))"

definition load ::
  "heap \<Rightarrow> string list \<Rightarrow> addr \<Rightarrow> string \<Rightarrow> filesys \<Rightarrow> heap \<times> string list \<times> error option" where
  "load h out self load_path fs =
     (if load_path \<in> set (dirs fs) then (h, out, Some (IsADirectoryError load_path))
      else case map_of (files fs) load_path of
        None \<Rightarrow> (h, out, Some (FileNotFoundError load_path))
      | Some NotJson \<Rightarrow> (h, out, Some JSONDecodeError)
      | Some (Json (PDict conf)) \<Rightarrow> from_dict h out self conf False
      | Some (Json _) \<Rightarrow> (h, out, Some (AttributeError ''items'')))"

subsection \<open>clone\<close>





section \<open>Predicates and example configurations used in the statements\<close>

text \<open>
  \<open>keeps_nodes h h'\<close>: every field that holds a reference to an instance in \<open>h\<close> holds
  the same reference in \<open>h'\<close>.
\<close>

definition keeps_nodes :: "heap \<Rightarrow> heap \<Rightarrow> bool" where
  "keeps_nodes h h' \<longleftrightarrow> length h' = length h \<and>
     (\<forall>c k b. c < length h \<and> getitem (h ! c) k = Some (Node b)
        \<longrightarrow> getitem (h' ! c) k = Some (Node b))"

definition ex_child :: pyobj where
  "ex_child = \<lparr>attrs = [(''lr'', Data (PFloat (2 / 10))), (''name'', Data (PStr ''child''))],
               class_attrs = []\<rparr>"

definition ex_parent :: pyobj where
  "ex_parent = \<lparr>attrs = [(''seed'', Data (PInt 7)), (''lr'', Data (PFloat (1 / 10))),
                          (''sub'', Node 0)],
                class_attrs = []\<rparr>"

definition ex_fs :: filesys where
  "ex_fs = \<lparr>dirs = [''runs''], files = [], denied = []\<rparr>"

definition ex_leaf :: pyobj where
  "ex_leaf = \<lparr>attrs = [(''lr'', Data (PFloat (1 / 10)))], class_attrs = []\<rparr>"

definition ex_root :: pyobj where
  "ex_root = \<lparr>attrs = [(''lr'', Data (PFloat (1 / 10))), (''sub'', Node 1)], class_attrs = []\<rparr>"

text \<open>
  \<open>wf_config h a\<close>: the instance at \<open>a\<close> is a configuration as the data model has
  it.  Its references lead to instances of the heap, the keys of each \<open>__dict__\<close> are
  distinct, and following nested instances always comes to an end (there is no cycle).
\<close>

inductive wf_config :: "heap \<Rightarrow> addr \<Rightarrow> bool" for h where
  "a < length h \<Longrightarrow> distinct (keys (h ! a))
   \<Longrightarrow> (\<And>k b. (k, Node b) \<in> set (attrs (h ! a)) \<Longrightarrow> wf_config h b)
   \<Longrightarrow> wf_config h a"

definition ex_ab :: pyobj where
  "ex_ab = \<lparr>attrs = [(''a'', Data (PInt 1)), (''b'', Data (PEnum ''Activation'' ''relu''))],
            class_attrs = []\<rparr>"

definition ex_tree :: heap where
  "ex_tree = [\<lparr>attrs = [(''lr'', Data (PFloat (1 / 10))), (''act'', Data (PEnum ''Activation'' ''silu'')),
                         (''net'', Node 1)], class_attrs = []\<rparr>,
              \<lparr>attrs = [(''mult'', Data (PTuple [PInt 1, PInt 2])), (''lr'', Data (PFloat (2 / 10)))],
                class_attrs = []\<rparr>]"

text \<open>
  Values beyond the limits of the encoder: the integer \<open>10 ** 5000\<close> has 5001 decimal
  digits, and \<open>nest n v\<close> is \<open>v\<close> inside \<open>n\<close> lists of one element.  \<open>ex_mixed\<close> has
  containers with and without an enumeration member.
\<close>

definition huge :: int where
  "huge = 10 ^ 5000"

fun nest :: "nat \<Rightarrow> pydata \<Rightarrow> pydata" where
  "nest 0 v = v"
| "nest (Suc n) v = PList [nest n v]"

definition ex_huge :: pyobj where
  "ex_huge = \<lparr>attrs = [(''a'', Data (PInt 1)), (''steps'', Data (PInt huge))],
              class_attrs = []\<rparr>"

definition ex_deep :: pyobj where
  "ex_deep = \<lparr>attrs = [(''a'', Data (PInt 1)), (''x'', Data (nest 100000 PNone))],
              class_attrs = []\<rparr>"

definition ex_mixed :: pyobj where
  "ex_mixed =
     \<lparr>attrs = [(''a'', Data (PInt 1)),
                (''acts'', Data (PList [PStr ''relu'', PEnum ''Activation'' ''relu''])),
                (''opt'', Data (PDict [(''act'', PEnum ''Activation'' ''silu'')])),
                (''mult'', Data (PTuple [PInt 1, PInt 2])),
                (''b'', Data (PEnum ''Activation'' ''relu''))],
      class_attrs = []\<rparr>"

definition ex_chain :: heap where
  "ex_chain =
     [\<lparr>attrs = [(''lr'', Data (PFloat (1 / 10))), (''child'', Node 1)], class_attrs = []\<rparr>,
      \<lparr>attrs = [(''lr'', Data (PFloat (2 / 10))), (''child'', Node 2)], class_attrs = []\<rparr>,
      \<lparr>attrs = [(''lr'', Data (PFloat (3 / 10)))], class_attrs = []\<rparr>]"

definition ex_chain2 :: heap where
  "ex_chain2 =
     [\<lparr>attrs = [(''lr'', Data (PFloat (1 / 10))), (''child'', Node 1)], class_attrs = []\<rparr>,
      \<lparr>attrs = [(''lr'', Data (PFloat (2 / 10))), (''leaf'', Node 2)], class_attrs = []\<rparr>,
      \<lparr>attrs = [(''lr'', Data (PFloat (3 / 10)))], class_attrs = []\<rparr>]"

text \<open>
  \<open>only_node obj k b\<close>: the field \<open>k\<close> of \<open>obj\<close> holds the instance \<open>b\<close> and no other
  field of \<open>obj\<close> holds an instance.  \<open>no_node obj\<close>: no field of \<open>obj\<close> holds an
  instance.
\<close>

definition only_node :: "pyobj \<Rightarrow> string \<Rightarrow> addr \<Rightarrow> bool" where
  "only_node obj k b \<longleftrightarrow> getitem obj k = Some (Node b)
     \<and> (\<forall>k' b'. getitem obj k' = Some (Node b') \<longrightarrow> k' = k)"

definition no_node :: "pyobj \<Rightarrow> bool" where
  "no_node obj \<longleftrightarrow> (\<forall>k b. getitem obj k \<noteq> Some (Node b))"

definition ex_looped :: heap where
  "ex_looped =
     [\<lparr>attrs = [(''lr'', Data (PFloat (1 / 10))), (''child'', Node 1)], class_attrs = []\<rparr>,
      \<lparr>attrs = [(''lr'', Data (PFloat (1 / 10))), (''child'', Node 1)], class_attrs = []\<rparr>,
      \<lparr>attrs = [(''lr'', Data (PFloat (3 / 10)))], class_attrs = []\<rparr>]"


datatype cfg = Leaf pydata | Sub "string list" "(string \<times> cfg) list"

fun tree_items :: "(addr \<Rightarrow> cfg option) \<Rightarrow> (string \<times> pyval) list \<Rightarrow> (string \<times> cfg) list option" where
  "tree_items f [] = Some []"
| "tree_items f ((k, Data v) # kvs) = map_option ((#) (k, Leaf v)) (tree_items f kvs)"
| "tree_items f ((k, Node b) # kvs) =
     (case f b of
        None \<Rightarrow> None
      | Some t \<Rightarrow> map_option ((#) (k, t)) (tree_items f kvs))"

primrec tree_of :: "nat \<Rightarrow> heap \<Rightarrow> addr \<Rightarrow> cfg option" where
  "tree_of 0 h a = None"
| "tree_of (Suc n) h a =
     map_option (Sub (class_attrs (h ! a))) (tree_items (tree_of n h) (attrs (h ! a)))"










text \<open>
  Trees of field values.  \<open>data_of t\<close> is the dictionary that serializes the tree \<open>t\<close>
  and \<open>dict_items t\<close> its items; \<open>shape_of t\<close> forgets the plain values and keeps the
  classes, the field names and where the nested instances are; \<open>json_tree lims t\<close>: every
  plain value of \<open>t\<close> is accepted by the JSON encoder and comes back unchanged from the
  decoder; \<open>distinct_keys t\<close>: no instance of \<open>t\<close> has two fields of one name.
  \<open>nodes_of n h a\<close> lists the instances met when unfolding \<open>a\<close>, and \<open>unshared n h a\<close>
  says that they are instances of the heap and that none is met twice.
\<close>

fun data_of :: "cfg \<Rightarrow> pydata" where
  "data_of (Leaf v) = v"
| "data_of (Sub cls items) = PDict (map (\<lambda>kt. (fst kt, data_of (snd kt))) items)"

fun dict_items :: "cfg \<Rightarrow> (string \<times> pydata) list" where
  "dict_items (Leaf v) = []"
| "dict_items (Sub cls items) = map (\<lambda>kt. (fst kt, data_of (snd kt))) items"

fun shape_of :: "cfg \<Rightarrow> cfg" where
  "shape_of (Leaf v) = Leaf PNone"
| "shape_of (Sub cls items) = Sub cls (map (\<lambda>kt. (fst kt, shape_of (snd kt))) items)"

fun distinct_keys :: "cfg \<Rightarrow> bool" where
  "distinct_keys (Leaf v) = True"
| "distinct_keys (Sub cls items) =
     (distinct (map fst items) \<and> list_all (\<lambda>kt. distinct_keys (snd kt)) items)"

fun json_tree :: "limits \<Rightarrow> cfg \<Rightarrow> bool" where
  "json_tree lims (Leaf v) = (jsonable lims v = Inr True \<and> json_value v = v)"
| "json_tree lims (Sub cls items) = list_all (\<lambda>kt. json_tree lims (snd kt)) items"

fun nodes_items :: "(addr \<Rightarrow> addr list option) \<Rightarrow> (string \<times> pyval) list \<Rightarrow> addr list option" where
  "nodes_items f [] = Some []"
| "nodes_items f ((k, Data v) # kvs) = nodes_items f kvs"
| "nodes_items f ((k, Node b) # kvs) =
     (case f b of
        None \<Rightarrow> None
      | Some ns \<Rightarrow> map_option ((@) ns) (nodes_items f kvs))"

primrec nodes_of :: "nat \<Rightarrow> heap \<Rightarrow> addr \<Rightarrow> addr list option" where
  "nodes_of 0 h a = None"
| "nodes_of (Suc n) h a = map_option ((#) a) (nodes_items (nodes_of n h) (attrs (h ! a)))"

definition unshared :: "nat \<Rightarrow> heap \<Rightarrow> addr \<Rightarrow> bool" where
  "unshared n h a \<longleftrightarrow>
     (case nodes_of n h a of
        None \<Rightarrow> False
      | Some ns \<Rightarrow> distinct ns \<and> list_all (\<lambda>c. c < length h) ns)"

text \<open>
  \<open>loads n\<close>: \<open>from_dict\<close> with the items of a tree \<open>t\<close>, on an unshared instance
  of the shape of \<open>t\<close> and of depth below \<open>n\<close>, raises nothing, prints nothing, leaves the
  instance with the tree \<open>t\<close> and changes no other instance.
\<close>

definition loads :: "nat \<Rightarrow> bool" where
  "loads n \<longleftrightarrow>
     (\<forall>h out a t0 t ns strict.
        tree_of n h a = Some t0 \<and> nodes_of n h a = Some ns \<and> distinct ns
        \<and> (\<forall>c \<in> set ns. c < length h) \<and> shape_of t0 = shape_of t \<and> distinct_keys t
        \<longrightarrow> (\<exists>h'. from_dict h out a (dict_items t) strict = (h', out, None)
              \<and> tree_of n h' a = Some t \<and> nodes_of n h' a = Some ns
              \<and> length h' = length h \<and> (\<forall>c. c \<notin> set ns \<longrightarrow> h' ! c = h ! c)))"

definition ex_tuple :: heap where
  "ex_tuple =
     [\<lparr>attrs = [(''lr'', Data (PFloat (1 / 10))),
                 (''channel_mult'', Data (PTuple [PInt 1, PInt 2]))], class_attrs = []\<rparr>,
      \<lparr>attrs = [(''lr'', Data (PFloat (2 / 10))),
                 (''channel_mult'', Data (PTuple [PInt 1, PInt 1]))], class_attrs = []\<rparr>]"

definition ex_rt :: heap where
  "ex_rt =
     [\<lparr>attrs = [(''lr'', Data (PFloat (1 / 10))), (''net'', Node 1)], class_attrs = []\<rparr>,
      \<lparr>attrs = [(''mult'', Data (PList [PInt 1, PInt 2])), (''name'', Data (PStr ''unet''))],
        class_attrs = []\<rparr>,
      \<lparr>attrs = [(''lr'', Data (PFloat (2 / 10))), (''net'', Node 3)], class_attrs = []\<rparr>,
      \<lparr>attrs = [(''mult'', Data (PList [])), (''name'', Data (PStr []))], class_attrs = []\<rparr>]"

definition ex_saved :: filesys where
  "ex_saved =
     \<lparr>dirs = [''runs''],
      files = [(''runs/conf.json'',
                Json (PDict [(''lr'', PFloat (1 / 10)),
                             (''channel_mult'', PList [PInt 1, PInt 2])]))],
      denied = []\<rparr>"

definition ex_loaded :: heap where
  "ex_loaded =
     [\<lparr>attrs = [(''lr'', Data (PFloat (1 / 10))),
                 (''channel_mult'', Data (PTuple [PInt 1, PInt 2]))], class_attrs = []\<rparr>,
      \<lparr>attrs = [(''lr'', Data (PFloat (1 / 10))),
                 (''channel_mult'', Data (PList [PInt 1, PInt 2]))], class_attrs = []\<rparr>]"

definition ex_rt_tree :: cfg where
  "ex_rt_tree =
     Sub [] [(''lr'', Leaf (PFloat (1 / 10))),
             (''net'', Sub [] [(''mult'', Leaf (PList [PInt 1, PInt 2])),
                               (''name'', Leaf (PStr ''unet''))])]"

definition ex_rt_saved :: filesys where
  "ex_rt_saved =
     \<lparr>dirs = [''runs''],
      files = [(''runs/conf.json'',
                Json (PDict [(''lr'', PFloat (1 / 10)),
                             (''net'', PDict [(''mult'', PList [PInt 1, PInt 2]),
                                              (''name'', PStr ''unet'')])]))],
      denied = []\<rparr>"

section \<open>Properties\<close>

subsection \<open>The limits of the JSON encoder\<close>

declare dumps_error.simps(1) [simp del]

lemma cpython_depth: "max_depth cpython_limits = 1000"
  by (simp add: cpython_limits_def)

lemma dumps_int_below:
  assumes "\<bar>i\<bar> < 10 ^ k" and "k \<le> max_str_digits lims"
  shows "dumps_error lims d (PInt i) = None"
proof -
  have "(10::int) ^ k \<le> 10 ^ max_str_digits lims"
    using assms(2) by (intro power_increasing) simp_all
  with assms(1) have "\<not> 10 ^ max_str_digits lims \<le> \<bar>i\<bar>" by linarith
  then show ?thesis by (simp add: dumps_error.simps(1))
qed

lemma dumps_small_int: "\<bar>i\<bar> < 1000000 \<Longrightarrow> dumps_error cpython_limits d (PInt i) = None"
  using dumps_int_below [of i 6 cpython_limits d] by (simp add: cpython_limits_def)

lemma dumps_int_above:
  assumes "max_str_digits lims \<noteq> 0" and "max_str_digits lims \<le> k"
  shows "dumps_error lims d (PInt (10 ^ k))
     = Some (ValueError ''Exceeds the limit for integer string conversion'')"
proof -
  have "(10::int) ^ max_str_digits lims \<le> 10 ^ k"
    using assms(2) by (intro power_increasing) simp_all
  then have "(10::int) ^ max_str_digits lims \<le> \<bar>10 ^ k\<bar>" by simp
  with assms(1) show ?thesis by (simp add: dumps_error.simps(1))
qed

lemma dumps_huge:
  "dumps_error cpython_limits d (PInt huge)
     = Some (ValueError ''Exceeds the limit for integer string conversion'')"
  unfolding huge_def by (rule dumps_int_above) (simp_all add: cpython_limits_def)

lemma dumps_nest:
  "max_depth lims \<le> d + n \<Longrightarrow> dumps_error lims d (nest (Suc n) v) = Some RecursionError"
proof (induction n arbitrary: d)
  case 0
  then show ?case by simp
next
  case (Suc n)
  from Suc.prems have "max_depth lims \<le> Suc d + n" by simp
  from Suc.IH [OF this] show ?case by simp
qed

lemma dumps_deep: "dumps_error cpython_limits 0 (nest 100000 PNone) = Some RecursionError"
  using dumps_nest [of cpython_limits 0 99999 PNone] by (simp add: cpython_limits_def)

subsection \<open>Fields and heaps\<close>

lemma length_setitem [simp]: "length (setitem h a k v) = length h"
  by (simp add: setitem_def)

lemma setitem_other [simp]: "b \<noteq> a \<Longrightarrow> setitem h a k v ! b = h ! b"
  by (simp add: setitem_def)

lemma setitem_same_value:
  "getitem (h ! a) k = Some v \<Longrightarrow> setitem h a k v = h"
  by (simp add: setitem_def getitem_def update_triv)

lemma getitem_setitem:
  "a < length h \<Longrightarrow> getitem (setitem h a k v ! a) k' = (if k' = k then Some v else getitem (h ! a) k')"
  by (simp add: setitem_def getitem_def update_conv')

lemma keys_setitem:
  "a < length h \<Longrightarrow> k \<in> set (keys (h ! a)) \<Longrightarrow> keys (setitem h a k v ! a) = keys (h ! a)"
  by (simp add: setitem_def keys_def update_keys)

lemma class_attrs_setitem [simp]:
  "a < length h \<Longrightarrow> class_attrs (setitem h a k v ! a) = class_attrs (h ! a)"
  by (simp add: setitem_def)

lemma setitem_out_of_range: "\<not> a < length h \<Longrightarrow> setitem h a k v = h"
  by (simp add: setitem_def list_update_beyond)

lemma getitem_of_key: "k \<in> set (keys obj) \<Longrightarrow> \<exists>v. getitem obj k = Some v"
  by (cases "map_of (attrs obj) k") (auto simp: map_of_eq_None_iff keys_def getitem_def)

lemma getitem_None_iff: "getitem obj k = None \<longleftrightarrow> k \<notin> set (keys obj)"
  by (simp add: map_of_eq_None_iff keys_def getitem_def)

subsection \<open>inherit\<close>

lemma inherit_keys_self:
  "set ks \<subseteq> set (keys (h ! a)) \<Longrightarrow> inherit_keys h a a ks = Inr h"
proof (induction ks)
  case Nil
  show ?case by simp
next
  case (Cons k ks)
  then have "k \<in> set (keys (h ! a))" by simp
  then obtain v where v: "getitem (h ! a) k = Some v"
    using getitem_of_key by blast
  with Cons show ?case by (simp add: setitem_same_value)
qed

lemma inherit_keys_other:
  assumes "a < length h" "a \<noteq> b"
    and "set ks \<subseteq> set (keys (h ! a))" "set ks \<subseteq> set (keys (h ! b))"
  shows "\<exists>h'. inherit_keys h a b ks = Inr h' \<and> length h' = length h
      \<and> (\<forall>c. c \<noteq> a \<longrightarrow> h' ! c = h ! c)
      \<and> keys (h' ! a) = keys (h ! a)
      \<and> class_attrs (h' ! a) = class_attrs (h ! a)
      \<and> (\<forall>k. getitem (h' ! a) k = (if k \<in> set ks then getitem (h ! b) k else getitem (h ! a) k))"
  using assms
proof (induction ks arbitrary: h)
  case Nil
  show ?case by simp
next
  case (Cons k ks)
  from Cons.prems have "k \<in> set (keys (h ! b))" by simp
  then obtain v where v: "getitem (h ! b) k = Some v"
    using getitem_of_key by blast
  let ?h1 = "setitem h a k v"
  have ka: "k \<in> set (keys (h ! a))" using Cons.prems by simp
  have h1: "a < length ?h1" "set ks \<subseteq> set (keys (?h1 ! a))" "set ks \<subseteq> set (keys (?h1 ! b))"
    using Cons.prems ka by (simp_all add: keys_setitem)
  from Cons.IH [OF h1(1) \<open>a \<noteq> b\<close> h1(2) h1(3)]
  obtain h' where h': "inherit_keys ?h1 a b ks = Inr h'" "length h' = length ?h1"
    "\<forall>c. c \<noteq> a \<longrightarrow> h' ! c = ?h1 ! c" "keys (h' ! a) = keys (?h1 ! a)"
    "class_attrs (h' ! a) = class_attrs (?h1 ! a)"
    "\<forall>k'. getitem (h' ! a) k' = (if k' \<in> set ks then getitem (?h1 ! b) k' else getitem (?h1 ! a) k')"
    by blast
  have "inherit_keys h a b (k # ks) = Inr h'" using v h'(1) by simp
  moreover have "length h' = length h" using h'(2) by simp
  moreover have "\<forall>c. c \<noteq> a \<longrightarrow> h' ! c = h ! c" using h'(3) by simp
  moreover have "keys (h' ! a) = keys (h ! a)" using h'(4) Cons.prems(1) ka by (simp add: keys_setitem)
  moreover have "class_attrs (h' ! a) = class_attrs (h ! a)" using h'(5) Cons.prems(1) by simp
  moreover have "\<forall>k'. getitem (h' ! a) k' =
      (if k' \<in> set (k # ks) then getitem (h ! b) k' else getitem (h ! a) k')"
    using h'(6) Cons.prems(1,2) v by (auto simp: getitem_setitem)
  ultimately show ?case by blast
qed


lemma common_keys_set:
  "set (common_keys s t) = set (keys s) \<inter> set (keys t)"
  by (auto simp: common_keys_def)

text \<open>
  Claim C2.  After \<open>a.inherit(b)\<close>, run over the common keys in any order, every field
  name that both declare holds in \<open>a\<close> the value it had in \<open>b\<close>, every field of \<open>a\<close>
  that \<open>b\<close> does not declare is unchanged, \<open>a\<close> declares the same fields as before, the
  fields of \<open>b\<close> and every other instance are unchanged, and no exception is raised.
\<close>

theorem inherit_copies_shared:
  assumes "a < length h" and "b < length h"
    and "set ks = set (common_keys (h ! a) (h ! b))"
  shows "\<exists>h'. inherit_keys h a b ks = Inr h' \<and> length h' = length h
      \<and> keys (h' ! a) = keys (h ! a)
      \<and> (\<forall>k. k \<in> set (keys (h ! a)) \<and> k \<in> set (keys (h ! b))
            \<longrightarrow> getitem (h' ! a) k = getitem (h ! b) k)
      \<and> (\<forall>k. k \<notin> set (keys (h ! b)) \<longrightarrow> getitem (h' ! a) k = getitem (h ! a) k)
      \<and> attrs (h' ! b) = attrs (h ! b)
      \<and> (\<forall>c. c \<noteq> a \<longrightarrow> h' ! c = h ! c)
      \<and> inherit h a b = inherit_keys h a b (common_keys (h ! a) (h ! b))"
proof (cases "a = b")
  case True
  have "inherit_keys h a a ks = Inr h"
    using assms(3) True by (intro inherit_keys_self) (simp add: common_keys_set)
  with True show ?thesis by (simp add: inherit_def)
next
  case False
  have sub: "set ks \<subseteq> set (keys (h ! a))" "set ks \<subseteq> set (keys (h ! b))"
    using assms(3) by (simp_all add: common_keys_set)
  from inherit_keys_other [OF assms(1) False sub]
  obtain h' where h': "inherit_keys h a b ks = Inr h'" "length h' = length h"
    "\<forall>c. c \<noteq> a \<longrightarrow> h' ! c = h ! c" "keys (h' ! a) = keys (h ! a)"
    "\<forall>k. getitem (h' ! a) k = (if k \<in> set ks then getitem (h ! b) k else getitem (h ! a) k)"
    by blast
  have "\<forall>k. k \<in> set (keys (h ! a)) \<and> k \<in> set (keys (h ! b))
      \<longrightarrow> getitem (h' ! a) k = getitem (h ! b) k"
    using h'(5) assms(3) by (simp add: common_keys_set)
  moreover have "\<forall>k. k \<notin> set (keys (h ! b)) \<longrightarrow> getitem (h' ! a) k = getitem (h ! a) k"
    using h'(5) assms(3) by (simp add: common_keys_set)
  moreover have "attrs (h' ! b) = attrs (h ! b)"
    using h'(3) False by simp
  moreover have "inherit h a b = inherit_keys h a b (common_keys (h ! a) (h ! b))"
    by (simp add: inherit_def)
  ultimately show ?thesis using h'(1,2,3,4) by blast
qed

theorem inherit_copies_shared_witness:
  "\<exists>h'. inherit_keys [ex_child, ex_parent] 0 1 [''lr''] = Inr h'
      \<and> getitem (h' ! 0) ''lr'' = Some (Data (PFloat (1 / 10)))
      \<and> getitem (h' ! 0) ''name'' = Some (Data (PStr ''child''))
      \<and> attrs (h' ! 1) = attrs ex_parent"
proof -
  let ?h = "[ex_child, ex_parent]"
  have a: "0 < length ?h" and b: "1 < length ?h" by simp_all
  have ks: "set [''lr''] = set (common_keys (?h ! 0) (?h ! 1))"
    by (auto simp: common_keys_def keys_def ex_child_def ex_parent_def)
  from inherit_copies_shared [OF a b ks]
  obtain h' where h': "inherit_keys ?h 0 1 [''lr''] = Inr h'"
    "\<forall>k. k \<in> set (keys (?h ! 0)) \<and> k \<in> set (keys (?h ! 1))
        \<longrightarrow> getitem (h' ! 0) k = getitem (?h ! 1) k"
    "\<forall>k. k \<notin> set (keys (?h ! 1)) \<longrightarrow> getitem (h' ! 0) k = getitem (?h ! 0) k"
    "attrs (h' ! 1) = attrs (?h ! 1)"
    by blast
  have "getitem (h' ! 0) ''lr'' = Some (Data (PFloat (1 / 10)))"
    using h'(2) [rule_format, of "''lr''"]
    by (simp add: keys_def getitem_def ex_child_def ex_parent_def)
  moreover have "getitem (h' ! 0) ''name'' = Some (Data (PStr ''child''))"
    using h'(3) [rule_format, of "''name''"]
    by (simp add: keys_def getitem_def ex_child_def ex_parent_def)
  ultimately show ?thesis using h'(1,4) by auto
qed

subsection \<open>from_dict\<close>

lemma keeps_nodes_refl: "keeps_nodes h h"
  by (simp add: keeps_nodes_def)

lemma keeps_nodes_trans: "keeps_nodes h h1 \<Longrightarrow> keeps_nodes h1 h2 \<Longrightarrow> keeps_nodes h h2"
  by (simp add: keeps_nodes_def)

lemma keeps_nodes_setitem:
  "getitem (h ! a) k = Some (Data old) \<Longrightarrow> keeps_nodes h (setitem h a k v)"
proof (cases "a < length h")
  case True
  assume old: "getitem (h ! a) k = Some (Data old)"
  have "getitem (setitem h a k v ! c) k' = Some (Node b)"
    if "getitem (h ! c) k' = Some (Node b)" for c k' b
    using that old True by (cases "c = a") (auto simp: getitem_setitem)
  then show ?thesis by (simp add: keeps_nodes_def)
next
  case False
  then show ?thesis by (simp add: setitem_out_of_range keeps_nodes_refl)
qed

lemma from_dict_keeps_nodes:
  "keeps_nodes h (fst (from_dict h out self d strict))"
proof (induction h out self d strict rule: from_dict.induct)
  case (1 h out self strict)
  show ?case by (simp add: keeps_nodes_refl)
next
  case (2 h out self k v kvs strict)
  show ?case
  proof (cases "hasattr (h ! self) k")
    case False
    with 2 show ?thesis by (simp add: keeps_nodes_refl)
  next
    case attr: True
    show ?thesis
    proof (cases "getitem (h ! self) k")
      case None
      with attr show ?thesis by (simp add: keeps_nodes_refl)
    next
      case (Some x)
      show ?thesis
      proof (cases x)
        case (Data old)
        from "2.IH"(2) [OF _ Some Data] attr
        have "keeps_nodes (setitem h self k (Data v))
            (fst (from_dict (setitem h self k (Data v)) out self kvs strict))" by simp
        with keeps_nodes_setitem [of h self k old "Data v"] Some Data attr
        show ?thesis by (auto intro: keeps_nodes_trans)
      next
        case (Node b)
        show ?thesis
        proof (cases v)
          case (PDict sub)
          obtain h1 out1 e1 where r: "from_dict h out b sub False = (h1, out1, e1)"
            by (cases "from_dict h out b sub False") auto
          from "2.IH"(3) [OF _ Some Node PDict] attr r have k1: "keeps_nodes h h1" by simp
          show ?thesis
          proof (cases e1)
            case None
            from "2.IH"(4) [OF _ Some Node PDict r [symmetric] refl None] attr
            have "keeps_nodes h1 (fst (from_dict h1 out1 self kvs strict))" by simp
            with k1 r None attr Some Node PDict show ?thesis
              by (auto intro: keeps_nodes_trans)
          next
            case (Some e)
            with k1 r attr \<open>getitem (h ! self) k = Some x\<close> Node PDict show ?thesis by simp
          qed
        qed (use attr Some Node in \<open>simp_all add: keeps_nodes_refl\<close>)
      qed
    qed
  qed
qed

subsection \<open>get_act\<close>

lemmas Activation_defs =
  Activation_none_def Activation_relu_def Activation_lrelu_def Activation_silu_def
  Activation_tanh_def

text \<open>
  Claim C8.  \<open>get_act\<close> maps the five members of \<open>Activation\<close> to the identity,
  rectified-linear, leaky rectified-linear (negative slope 0.2), sigmoid-linear-unit and
  hyperbolic-tangent modules, which are pairwise distinct, and it raises
  \<open>NotImplementedError\<close> for every receiver that is none of the five.
\<close>

theorem get_act_total_on_tags:
  "get_act Activation_none = Inr Identity
   \<and> get_act Activation_relu = Inr ReLU
   \<and> get_act Activation_lrelu = Inr (LeakyReLU (2 / 10))
   \<and> get_act Activation_silu = Inr SiLU
   \<and> get_act Activation_tanh = Inr Tanh
   \<and> distinct [Identity, ReLU, LeakyReLU (2 / 10), SiLU, Tanh]
   \<and> (\<forall>m. m \<notin> {Activation_none, Activation_relu, Activation_lrelu, Activation_silu,
          Activation_tanh} \<longrightarrow> get_act m = Inl NotImplementedError)"
  by (simp add: get_act_def Activation_defs)

theorem get_act_total_on_tags_witness:
  "(''ModelType'', ''ddpm'') \<notin> {Activation_none, Activation_relu, Activation_lrelu,
      Activation_silu, Activation_tanh}
   \<and> get_act (''ModelType'', ''ddpm'') = Inl NotImplementedError
   \<and> get_act Activation_lrelu = Inr (LeakyReLU (2 / 10))"
proof -
  have out: "(''ModelType'', ''ddpm'') \<notin> {Activation_none, Activation_relu,
      Activation_lrelu, Activation_silu, Activation_tanh}"
    by (simp add: Activation_defs)
  from get_act_total_on_tags out show ?thesis by blast
qed

subsection \<open>from_dict and load: nested instances stay in place\<close>

lemma load_keeps_nodes: "keeps_nodes h (fst (load h out self path fs))"
  by (auto simp: load_def from_dict_keeps_nodes keeps_nodes_refl
      split: option.splits content.splits pydata.splits)

lemma hasattr_simps:
  "hasattr ex_root ''sub''" "hasattr ex_root ''lr''" "\<not> hasattr ex_root ''z''"
  "hasattr ex_leaf ''lr''" "\<not> hasattr ex_leaf ''z''" "hasattr ex_leaf ''clone''"
  "\<not> hasattr ex_leaf ''sub''"
  by (simp_all add: hasattr_def ex_root_def ex_leaf_def keys_def BaseConfig_methods_def)

lemma getitem_simps:
  "getitem ex_root ''sub'' = Some (Node 1)"
  "getitem ex_root ''lr'' = Some (Data (PFloat (1 / 10)))"
  "getitem ex_leaf ''lr'' = Some (Data (PFloat (1 / 10)))"
  "getitem ex_leaf ''clone'' = None"
  by (simp_all add: getitem_def ex_root_def ex_leaf_def)

text \<open>
  Claim C10.  Whatever mapping \<open>from_dict\<close> is given, in either mode and whether or not it
  raises, every field of every instance that held a reference to a nested instance before
  the call holds the same reference after it; the same is true of \<open>load\<close>.  A nested
  instance is updated in place and never replaced by a value from the mapping.
\<close>

theorem from_dict_keeps_node_fields:
  assumes "c < length h" and "getitem (h ! c) k = Some (Node b)"
  shows "getitem (fst (from_dict h out self d strict) ! c) k = Some (Node b)
       \<and> getitem (fst (load h out self path fs) ! c) k = Some (Node b)"
  using assms from_dict_keeps_nodes [of h out self d strict] load_keeps_nodes [of h out self path fs]
  unfolding keeps_nodes_def by blast

theorem from_dict_keeps_node_fields_witness:
  "getitem (fst (from_dict [ex_root, ex_leaf] [] 0
       [(''sub'', PDict [(''lr'', PFloat (3 / 10))]), (''lr'', PInt 5)] False) ! 0) ''sub''
     = Some (Node 1)
   \<and> fst (from_dict [ex_root, ex_leaf] [] 0
       [(''sub'', PDict [(''lr'', PFloat (3 / 10))]), (''lr'', PInt 5)] False)
     = [ex_root\<lparr>attrs := [(''lr'', Data (PInt 5)), (''sub'', Node 1)]\<rparr>,
        ex_leaf\<lparr>attrs := [(''lr'', Data (PFloat (3 / 10)))]\<rparr>]"
proof -
  have c: "0 < length [ex_root, ex_leaf]" by simp
  have n: "getitem ([ex_root, ex_leaf] ! 0) ''sub'' = Some (Node 1)"
    by (simp add: getitem_simps)
  have eq: "fst (from_dict [ex_root, ex_leaf] [] 0
       [(''sub'', PDict [(''lr'', PFloat (3 / 10))]), (''lr'', PInt 5)] False)
     = [ex_root\<lparr>attrs := [(''lr'', Data (PInt 5)), (''sub'', Node 1)]\<rparr>,
        ex_leaf\<lparr>attrs := [(''lr'', Data (PFloat (3 / 10)))]\<rparr>]"
    by (simp add: hasattr_simps getitem_simps setitem_def)
       (simp add: ex_root_def ex_leaf_def)
  from from_dict_keeps_node_fields [OF c n] eq show ?thesis by blast
qed

subsection \<open>from_dict: keys that are not fields\<close>

text \<open>
  A key that attribute lookup does not find at all is an extra key: the strict mode raises
  \<open>ValueError\<close> and the lenient mode prints a line and goes on, changing nothing.  In a
  nested instance the lenient mode applies whatever the caller asked for.
\<close>

lemma from_dict_extra_key:
  assumes "\<not> hasattr (h ! a) z"
  shows "from_dict h out a [(z, v)] True = (h, out, Some (ValueError (extra_msg z)))"
    and "from_dict h out a [(z, v)] False = (h, out @ [extra_msg z], None)"
  using assms by simp_all

lemma from_dict_nested_extra_key:
  assumes "getitem (h ! a) f = Some (Node b)" and "\<not> hasattr (h ! b) z"
  shows "from_dict h out a [(f, PDict [(z, v)])] strict = (h, out @ [extra_msg z], None)"
proof -
  from assms(1) have "f \<in> set (keys (h ! a))"
    using getitem_None_iff [of "h ! a" f] by auto
  then have "hasattr (h ! a) f" by (simp add: hasattr_def)
  with assms show ?thesis by simp
qed

text \<open>
  Claim C4.  For a key that no field is named after, the strict mode is to raise the
  extra-field error and the lenient mode is to print a line and leave the instance alone.
  The code does so for \<open>z\<close>, but \<open>clone\<close> names a method: \<open>hasattr\<close> finds it, the key is
  taken for a field, and the lookup in \<open>__dict__\<close> raises \<open>KeyError\<close> in both modes.
\<close>

theorem from_dict_method_name_key:
  "from_dict [ex_leaf] [] 0 [(''clone'', PInt 5)] True = ([ex_leaf], [], Some (KeyError ''clone''))
   \<and> from_dict [ex_leaf] [] 0 [(''clone'', PInt 5)] False
       = ([ex_leaf], [], Some (KeyError ''clone''))
   \<and> from_dict [ex_leaf] [] 0 [(''z'', PInt 5)] True
       = ([ex_leaf], [], Some (ValueError (extra_msg ''z'')))
   \<and> from_dict [ex_leaf] [] 0 [(''z'', PInt 5)] False = ([ex_leaf], [extra_msg ''z''], None)"
  by (simp add: hasattr_simps getitem_simps)

text \<open>
  Claim C5.  The nested call is lenient although the caller is strict: the key \<open>z\<close>, which
  raises at the top level, is printed and skipped one level down.  A nested key that
  names a method is not skipped: it raises \<open>KeyError\<close>, as at the top level.
\<close>

theorem from_dict_nested_method_name_key:
  "from_dict [ex_root, ex_leaf] [] 0 [(''sub'', PDict [(''clone'', PInt 5)])] True
     = ([ex_root, ex_leaf], [], Some (KeyError ''clone''))
   \<and> from_dict [ex_root, ex_leaf] [] 0 [(''sub'', PDict [(''z'', PInt 5)])] True
     = ([ex_root, ex_leaf], [extra_msg ''z''], None)
   \<and> from_dict [ex_root, ex_leaf] [] 0 [(''z'', PInt 5)] True
     = ([ex_root, ex_leaf], [], Some (ValueError (extra_msg ''z'')))"
  by (simp add: hasattr_simps getitem_simps)

subsection \<open>save\<close>

lemma dirname_no_sep: "CHR ''/'' \<notin> set p \<Longrightarrow> os_path_dirname p = []"
proof -
  assume "CHR ''/'' \<notin> set p"
  then have "dropWhile (\<lambda>c. c \<noteq> CHR ''/'') (rev p) = []" by (auto simp: dropWhile_eq_Nil_conv)
  then show ?thesis by (simp add: os_path_dirname_def os_path_split_def)
qed

lemma save_no_directory:
  "CHR ''/'' \<notin> set p \<Longrightarrow> save n lims h a p fs = Some (fs, Some (FileNotFoundError []))"
  by (simp add: save_def dirname_no_sep os_path_exists_def os_makedirs_def)

text \<open>
  Claim C9.  A path without a directory part has the empty directory name; the empty path
  does not exist, so \<open>save\<close> asks for it to be created, which fails: nothing is written,
  whatever the instance and the file system.
\<close>

theorem save_bare_file_name:
  "save n lims h a ''config.json'' fs = Some (fs, Some (FileNotFoundError []))
   \<and> os_path_dirname ''config.json'' = []"
  by (simp add: save_no_directory dirname_no_sep)

subsection \<open>as_dict_jsonable\<close>

lemma as_dict_items_mono:
  assumes "\<And>b d. f b = Some d \<Longrightarrow> g b = Some d"
  shows "as_dict_items lims f conf kvs = Some r \<Longrightarrow> as_dict_items lims g conf kvs = Some r"
proof (induction kvs arbitrary: conf)
  case Nil
  then show ?case by simp
next
  case (Cons kv kvs)
  obtain k v where kv: "kv = (k, v)" by (cases kv)
  show ?case
  proof (cases v)
    case (Data x)
    with Cons kv show ?thesis by (auto split: sum.splits bool.splits)
  next
    case (Node b)
    show ?thesis
    proof (cases "f b")
      case None
      with Cons.prems kv Node show ?thesis by simp
    next
      case (Some y)
      from assms [OF Some] have g: "g b = Some y" .
      show ?thesis
      proof (cases y)
        case (Inl e)
        with Cons.prems kv Node Some g show ?thesis by simp
      next
        case (Inr d)
        with Cons.prems kv Node Some
        have "as_dict_items lims f (AList.update k d conf) kvs = Some r" by simp
        from Cons.IH [OF this] kv Node g Inr show ?thesis by simp
      qed
    qed
  qed
qed

lemma as_dict_jsonable_Suc:
  "as_dict_jsonable n lims h a = Some d \<Longrightarrow> as_dict_jsonable (Suc n) lims h a = Some d"
proof (induction n arbitrary: a d)
  case 0
  then show ?case by simp
next
  case (Suc n)
  from Suc.prems obtain r where
    r: "as_dict_items lims (as_dict_jsonable n lims h) [] (attrs (h ! a)) = Some r"
    and d: "d = (case r of Inl e \<Rightarrow> Inl e | Inr conf \<Rightarrow> Inr (PDict conf))"
    by (auto split: option.splits sum.splits)
  have "as_dict_items lims (as_dict_jsonable (Suc n) lims h) [] (attrs (h ! a)) = Some r"
    using as_dict_items_mono [OF Suc.IH r] .
  with d show ?case by (simp split: sum.splits)
qed

lemma as_dict_jsonable_mono:
  "as_dict_jsonable n lims h a = Some d \<Longrightarrow> n \<le> m \<Longrightarrow> as_dict_jsonable m lims h a = Some d"
  by (induction m) (auto simp: le_Suc_eq as_dict_jsonable_Suc simp del: as_dict_jsonable.simps)

lemma jsonable_huge:
  "jsonable cpython_limits (PInt huge)
     = Inl (ValueError ''Exceeds the limit for integer string conversion'')"
  by (simp add: jsonable_def dumps_huge)

lemma jsonable_deep: "jsonable cpython_limits (nest 100000 PNone) = Inl RecursionError"
  by (simp add: jsonable_def dumps_deep)

text \<open>
  Claim C6.  \<open>as_dict_jsonable\<close> expands nested instances and leaves out the fields that
  make the encoder raise \<open>TypeError\<close>: an instance with \<open>a = 1\<close> and an enumeration member
  in \<open>b\<close> gives exactly \<open>{"a": 1}\<close>, and a list or a dictionary that holds an enumeration
  member is left out like the member itself, while a tuple of numbers is kept.  But it
  does raise: with the limits of a default CPython 3.11, an instance whose field \<open>steps\<close>
  holds the integer \<open>10 ** 5000\<close> gives \<open>ValueError\<close>, and one whose field \<open>x\<close> holds a
  list nested 100000 deep gives \<open>RecursionError\<close>, whatever the bound on the depth of the
  configuration; neither field is silently omitted.
\<close>

theorem as_dict_jsonable_raises:
  "as_dict_jsonable 1 cpython_limits [ex_ab] 0 = Some (Inr (PDict [(''a'', PInt 1)]))
   \<and> as_dict_jsonable 2 cpython_limits ex_tree 0
       = Some (Inr (PDict [(''lr'', PFloat (1 / 10)),
                           (''net'', PDict [(''mult'', PTuple [PInt 1, PInt 2]),
                                            (''lr'', PFloat (2 / 10))])]))
   \<and> as_dict_jsonable 1 cpython_limits [ex_mixed] 0
       = Some (Inr (PDict [(''a'', PInt 1), (''mult'', PTuple [PInt 1, PInt 2])]))
   \<and> jsonable cpython_limits (PInt huge)
       = Inl (ValueError ''Exceeds the limit for integer string conversion'')
   \<and> (\<forall>n. as_dict_jsonable (Suc n) cpython_limits [ex_huge] 0
           = Some (Inl (ValueError ''Exceeds the limit for integer string conversion'')))
   \<and> jsonable cpython_limits (nest 100000 PNone) = Inl RecursionError
   \<and> (\<forall>n. as_dict_jsonable (Suc n) cpython_limits [ex_deep] 0 = Some (Inl RecursionError))"
proof -
  have 1: "as_dict_jsonable 1 cpython_limits [ex_ab] 0 = Some (Inr (PDict [(''a'', PInt 1)]))"
    by (simp add: ex_ab_def jsonable_def dumps_small_int)
  have 2: "as_dict_jsonable 2 cpython_limits ex_tree 0
       = Some (Inr (PDict [(''lr'', PFloat (1 / 10)),
                           (''net'', PDict [(''mult'', PTuple [PInt 1, PInt 2]),
                                            (''lr'', PFloat (2 / 10))])]))"
    by (simp add: ex_tree_def numeral_2_eq_2 jsonable_def dumps_small_int cpython_depth)
  have 3: "as_dict_jsonable 1 cpython_limits [ex_mixed] 0
       = Some (Inr (PDict [(''a'', PInt 1), (''mult'', PTuple [PInt 1, PInt 2])]))"
    by (simp add: ex_mixed_def jsonable_def dumps_small_int cpython_depth)
  have 4: "as_dict_jsonable (Suc n) cpython_limits [ex_huge] 0
           = Some (Inl (ValueError ''Exceeds the limit for integer string conversion''))" for n
    by (simp add: ex_huge_def jsonable_def dumps_huge dumps_small_int)
  have 5: "as_dict_jsonable (Suc n) cpython_limits [ex_deep] 0 = Some (Inl RecursionError)" for n
    by (simp add: ex_deep_def jsonable_def dumps_deep dumps_small_int)
  from 1 2 3 4 5 jsonable_huge jsonable_deep show ?thesis by blast
qed

subsection \<open>propagate\<close>

lemma inherit_spec:
  assumes "a < length h" "a \<noteq> b"
  shows "\<exists>h'. inherit h a b = Inr h' \<and> length h' = length h
      \<and> (\<forall>c. c \<noteq> a \<longrightarrow> h' ! c = h ! c)
      \<and> keys (h' ! a) = keys (h ! a)
      \<and> (\<forall>k. getitem (h' ! a) k =
            (if k \<in> set (keys (h ! a)) \<and> k \<in> set (keys (h ! b)) then getitem (h ! b) k
             else getitem (h ! a) k))"
proof -
  have sub: "set (common_keys (h ! a) (h ! b)) \<subseteq> set (keys (h ! a))"
    "set (common_keys (h ! a) (h ! b)) \<subseteq> set (keys (h ! b))"
    by (simp_all add: common_keys_set)
  from inherit_keys_other [OF assms sub] show ?thesis
    unfolding inherit_def common_keys_set by auto
qed

lemma inherit_self: "inherit h a a = Inr h"
  unfolding inherit_def by (rule inherit_keys_self) (simp add: common_keys_set)

lemma propagate_items_append:
  "propagate_items f h a (ks1 @ ks2) =
     (case propagate_items f h a ks1 of
        Some (Inr h') \<Rightarrow> propagate_items f h' a ks2
      | r \<Rightarrow> r)"
proof (induction ks1 arbitrary: h)
  case Nil
  show ?case by simp
next
  case (Cons k ks1)
  show ?case
    by (simp add: Cons.IH split: option.splits pyval.splits sum.splits)
qed

lemma propagate_items_no_node:
  "\<forall>k \<in> set ks. \<forall>b. getitem (h ! a) k \<noteq> Some (Node b) \<Longrightarrow> propagate_items f h a ks = Some (Inr h)"
  by (induction ks) (auto split: option.splits pyval.splits)

lemma propagate_no_node: "no_node (h ! a) \<Longrightarrow> propagate (Suc n) h a = Some (Inr h)"
  by (simp add: propagate_items_no_node no_node_def)

lemma propagate_items_only_node:
  assumes "only_node (h ! a) k b" and "distinct ks" and "k \<in> set ks"
    and "inherit h b a = Inr h1" and "f h1 b = Some (Inr h2)" and "h2 ! a = h ! a"
  shows "propagate_items f h a ks = Some (Inr h2)"
proof -
  from assms(3) obtain ks1 ks2 where ks: "ks = ks1 @ k # ks2" by (meson split_list)
  with assms(2) have nk: "k \<notin> set ks1" "k \<notin> set ks2" by auto
  have 1: "propagate_items f h a ks1 = Some (Inr h)"
    using assms(1) nk(1) by (intro propagate_items_no_node) (auto simp: only_node_def)
  have 2: "propagate_items f h2 a ks2 = Some (Inr h2)"
    using assms(1,6) nk(2) by (intro propagate_items_no_node) (auto simp: only_node_def)
  have "getitem (h ! a) k = Some (Node b)" using assms(1) by (simp add: only_node_def)
  then have "propagate_items f h a (k # ks2) = Some (Inr h2)"
    using assms(4,5) 2 by simp
  with 1 ks show ?thesis by (simp add: propagate_items_append)
qed

text \<open>
  Claim C1, amended.  Take a chain root, child, grandchild: the only field of the root
  that holds an instance holds the child under the name \<open>kc\<close>, the only one of the child
  holds the grandchild under the name \<open>kg\<close>, and the grandchild holds none.  All three
  declare \<open>lr\<close>.  If the child does not declare \<open>kc\<close>, and neither the root nor the
  grandchild declares \<open>kg\<close>, then \<open>root.propagate()\<close> returns and leaves the root's value
  of \<open>lr\<close> in the child and in the grandchild, whatever they held before.
\<close>

theorem propagate_chain:
  assumes len: "r < length h" "c < length h" "g < length h"
    and ne: "r \<noteq> c" "c \<noteq> g" "r \<noteq> g"
    and dist: "distinct (keys (h ! r))" "distinct (keys (h ! c))"
    and root: "only_node (h ! r) kc c" "getitem (h ! r) lr = Some (Data v)"
    and child: "only_node (h ! c) kg g" "lr \<in> set (keys (h ! c))"
    and grand: "no_node (h ! g)" "lr \<in> set (keys (h ! g))"
    and names: "kc \<notin> set (keys (h ! c))" "kg \<notin> set (keys (h ! r))" "kg \<notin> set (keys (h ! g))"
  shows "\<exists>h'. propagate 3 h r = Some (Inr h')
      \<and> (\<forall>n. 3 \<le> n \<longrightarrow> propagate n h r = Some (Inr h'))
      \<and> getitem (h' ! c) lr = Some (Data v) \<and> getitem (h' ! g) lr = Some (Data v)
      \<and> getitem (h' ! r) lr = Some (Data v)"
proof -
  have lr_r: "lr \<in> set (keys (h ! r))"
    using root(2) getitem_None_iff [of "h ! r" lr] by auto
  have kc_r: "kc \<in> set (keys (h ! r))"
    using root(1) getitem_None_iff [of "h ! r" kc] by (auto simp: only_node_def)
  have kg_c: "kg \<in> set (keys (h ! c))"
    using child(1) getitem_None_iff [of "h ! c" kg] by (auto simp: only_node_def)
  \<comment> \<open>the child inherits from the root\<close>
  from inherit_spec [OF len(2) ne(1) [symmetric]]
  obtain h1 where h1: "inherit h c r = Inr h1" "length h1 = length h"
    "\<forall>a. a \<noteq> c \<longrightarrow> h1 ! a = h ! a" "keys (h1 ! c) = keys (h ! c)"
    "\<forall>k. getitem (h1 ! c) k =
       (if k \<in> set (keys (h ! c)) \<and> k \<in> set (keys (h ! r)) then getitem (h ! r) k
        else getitem (h ! c) k)"
    by blast
  have c_lr: "getitem (h1 ! c) lr = Some (Data v)"
    using h1(5) child(2) lr_r root(2) by simp
  have c_only: "only_node (h1 ! c) kg g"
    unfolding only_node_def
  proof (intro conjI allI impI)
    show "getitem (h1 ! c) kg = Some (Node g)"
      using h1(5) names(2) child(1) by (simp add: only_node_def)
    fix k' b' assume n: "getitem (h1 ! c) k' = Some (Node b')"
    show "k' = kg"
    proof (cases "k' \<in> set (keys (h ! c)) \<and> k' \<in> set (keys (h ! r))")
      case True
      with n h1(5) have "getitem (h ! r) k' = Some (Node b')" by simp
      with root(1) have "k' = kc" by (auto simp: only_node_def)
      with True names(1) show ?thesis by simp
    next
      case False
      with n h1(5) have "getitem (h ! c) k' = Some (Node b')" by auto
      with child(1) show ?thesis by (auto simp: only_node_def)
    qed
  qed
  \<comment> \<open>the grandchild inherits from the child\<close>
  have len1: "g < length h1" using len h1(2) by simp
  from inherit_spec [OF len1 ne(2) [symmetric]]
  obtain h2 where h2: "inherit h1 g c = Inr h2" "length h2 = length h1"
    "\<forall>a. a \<noteq> g \<longrightarrow> h2 ! a = h1 ! a" "keys (h2 ! g) = keys (h1 ! g)"
    "\<forall>k. getitem (h2 ! g) k =
       (if k \<in> set (keys (h1 ! g)) \<and> k \<in> set (keys (h1 ! c)) then getitem (h1 ! c) k
        else getitem (h1 ! g) k)"
    by blast
  have g1: "h1 ! g = h ! g" using h1(3) ne(2) by simp
  have g_lr: "getitem (h2 ! g) lr = Some (Data v)"
    using h2(5) g1 grand(2) child(2) h1(4) c_lr by simp
  have g_none: "no_node (h2 ! g)"
    unfolding no_node_def
  proof (intro allI notI)
    fix k b assume n: "getitem (h2 ! g) k = Some (Node b)"
    show False
    proof (cases "k \<in> set (keys (h1 ! g)) \<and> k \<in> set (keys (h1 ! c))")
      case True
      with n h2(5) have "getitem (h1 ! c) k = Some (Node b)" by simp
      with c_only have "k = kg" by (auto simp: only_node_def)
      with True g1 names(3) show False by simp
    next
      case False
      with n h2(5) have "getitem (h1 ! g) k = Some (Node b)" by auto
      with g1 grand(1) show False by (simp add: no_node_def)
    qed
  qed
  \<comment> \<open>the three levels of the recursion\<close>
  have pg: "propagate (Suc n) h2 g = Some (Inr h2)" for n
    using g_none by (rule propagate_no_node)
  have c2: "h2 ! c = h1 ! c" using h2(3) ne(2) by simp
  have pc: "propagate (Suc (Suc n)) h1 c = Some (Inr h2)" for n
    unfolding propagate.simps(2) [of "Suc n"]
    using c_only _ _ h2(1) pg c2
  proof (rule propagate_items_only_node)
    show "distinct (keys (h1 ! c))" using h1(4) dist(2) by simp
    show "kg \<in> set (keys (h1 ! c))" using h1(4) kg_c by simp
  qed
  have r2: "h2 ! r = h ! r" using h2(3) h1(3) ne by simp
  have pr: "propagate (Suc (Suc (Suc n))) h r = Some (Inr h2)" for n
    unfolding propagate.simps(2) [of "Suc (Suc n)"]
    using root(1) dist(1) kc_r h1(1) pc r2 by (rule propagate_items_only_node)
  have all: "propagate n h r = Some (Inr h2)" if "3 \<le> n" for n
  proof -
    from that obtain m where "n = Suc (Suc (Suc m))"
      by (metis Suc_le_D numeral_3_eq_3 Suc_le_mono)
    with pr show ?thesis by simp
  qed
  have "getitem (h2 ! c) lr = Some (Data v)" using c2 c_lr by simp
  moreover have "getitem (h2 ! r) lr = Some (Data v)" using r2 root(2) by simp
  ultimately show ?thesis using all g_lr by auto
qed

lemma inherit_ex_chain: "inherit ex_chain (Suc 0) 0 = Inr ex_looped"
  by (simp add: inherit_def common_keys_def keys_def getitem_def setitem_def ex_chain_def
      ex_looped_def)

lemma propagate_ex_looped: "propagate n ex_looped (Suc 0) = None"
proof (induction n)
  case 0
  show ?case by simp
next
  case (Suc n)
  have k: "keys (ex_looped ! Suc 0) = [''lr'', ''child'']" by (simp add: ex_looped_def keys_def)
  have g: "getitem (ex_looped ! Suc 0) ''lr'' = Some (Data (PFloat (1 / 10)))"
    "getitem (ex_looped ! Suc 0) ''child'' = Some (Node (Suc 0))"
    by (simp_all add: ex_looped_def getitem_def)
  show ?case by (simp add: k g inherit_self Suc.IH)
qed

text \<open>
  The claim as stated fails when both links have the same name, as in a root and a child
  that each keep their nested configuration in a field \<open>child\<close>: the child inherits the
  root's \<open>child\<close>, which is the child itself, the recursion never ends, and the
  grandchild is never reached.
\<close>

theorem propagate_same_link_name_counterexample:
  "wf_config ex_chain 0
   \<and> getitem (ex_chain ! 0) ''lr'' = Some (Data (PFloat (1 / 10)))
   \<and> getitem (ex_chain ! 0) ''child'' = Some (Node 1)
   \<and> getitem (ex_chain ! 1) ''lr'' = Some (Data (PFloat (2 / 10)))
   \<and> getitem (ex_chain ! 1) ''child'' = Some (Node 2)
   \<and> getitem (ex_chain ! 2) ''lr'' = Some (Data (PFloat (3 / 10)))
   \<and> inherit ex_chain 1 0 = Inr ex_looped
   \<and> getitem (ex_looped ! 1) ''child'' = Some (Node 1)
   \<and> getitem (ex_looped ! 2) ''lr'' = Some (Data (PFloat (3 / 10)))
   \<and> \<not> (\<exists>n r. propagate n ex_chain 0 = Some r)"
proof -
  have wf2: "wf_config ex_chain 2"
    by (rule wf_config.intros) (auto simp: ex_chain_def keys_def)
  have wf1: "wf_config ex_chain 1"
  proof (rule wf_config.intros)
    fix k b assume "(k, Node b) \<in> set (attrs (ex_chain ! 1))"
    then have "b = 2" by (auto simp: ex_chain_def)
    with wf2 show "wf_config ex_chain b" by simp
  qed (auto simp: ex_chain_def keys_def)
  have wf0: "wf_config ex_chain 0"
  proof (rule wf_config.intros)
    fix k b assume "(k, Node b) \<in> set (attrs (ex_chain ! 0))"
    then have "b = 1" by (auto simp: ex_chain_def)
    with wf1 show "wf_config ex_chain b" by simp
  qed (auto simp: ex_chain_def keys_def)
  have k: "keys (ex_chain ! 0) = [''lr'', ''child'']" by (simp add: ex_chain_def keys_def)
  have g: "getitem (ex_chain ! 0) ''lr'' = Some (Data (PFloat (1 / 10)))"
    "getitem (ex_chain ! 0) ''child'' = Some (Node 1)"
    "getitem (ex_chain ! 1) ''lr'' = Some (Data (PFloat (2 / 10)))"
    "getitem (ex_chain ! 1) ''child'' = Some (Node 2)"
    "getitem (ex_chain ! 2) ''lr'' = Some (Data (PFloat (3 / 10)))"
    by (simp_all add: ex_chain_def getitem_def)
  have div: "propagate n ex_chain 0 = None" for n
    by (cases n) (simp_all add: k g inherit_ex_chain propagate_ex_looped)
  have l: "getitem (ex_looped ! 1) ''child'' = Some (Node 1)"
    "getitem (ex_looped ! 2) ''lr'' = Some (Data (PFloat (3 / 10)))"
    by (simp_all add: ex_looped_def getitem_def)
  have "\<not> (\<exists>n r. propagate n ex_chain 0 = Some r)" using div by simp
  with wf0 g inherit_ex_chain l show ?thesis by simp
qed

theorem propagate_chain_witness:
  "only_node (ex_chain2 ! 0) ''child'' 1 \<and> only_node (ex_chain2 ! 1) ''leaf'' 2
   \<and> no_node (ex_chain2 ! 2)
   \<and> getitem (ex_chain2 ! 1) ''lr'' = Some (Data (PFloat (2 / 10)))
   \<and> (\<exists>h'. propagate 3 ex_chain2 0 = Some (Inr h')
        \<and> getitem (h' ! 1) ''lr'' = Some (Data (PFloat (1 / 10)))
        \<and> getitem (h' ! 2) ''lr'' = Some (Data (PFloat (1 / 10))))"
proof -
  have k: "keys (ex_chain2 ! 0) = [''lr'', ''child'']" "keys (ex_chain2 ! 1) = [''lr'', ''leaf'']"
    "keys (ex_chain2 ! 2) = [''lr'']"
    by (simp_all add: ex_chain2_def keys_def)
  have o0: "only_node (ex_chain2 ! 0) ''child'' 1"
    by (auto simp: only_node_def ex_chain2_def getitem_def split: if_splits)
  have o1: "only_node (ex_chain2 ! 1) ''leaf'' 2"
    by (auto simp: only_node_def ex_chain2_def getitem_def split: if_splits)
  have o2: "no_node (ex_chain2 ! 2)"
    by (auto simp: no_node_def ex_chain2_def getitem_def split: if_splits)
  have g: "getitem (ex_chain2 ! 0) ''lr'' = Some (Data (PFloat (1 / 10)))"
    "getitem (ex_chain2 ! 1) ''lr'' = Some (Data (PFloat (2 / 10)))"
    by (simp_all add: ex_chain2_def getitem_def)
  have len: "0 < length ex_chain2" "1 < length ex_chain2" "2 < length ex_chain2"
    by (simp_all add: ex_chain2_def)
  have "\<exists>h'. propagate 3 ex_chain2 0 = Some (Inr h')
      \<and> (\<forall>n. 3 \<le> n \<longrightarrow> propagate n ex_chain2 0 = Some (Inr h'))
      \<and> getitem (h' ! 1) ''lr'' = Some (Data (PFloat (1 / 10)))
      \<and> getitem (h' ! 2) ''lr'' = Some (Data (PFloat (1 / 10)))
      \<and> getitem (h' ! 0) ''lr'' = Some (Data (PFloat (1 / 10)))"
    by (rule propagate_chain [OF len _ _ _ _ _ o0 g(1) o1 _ o2])
      (simp_all add: k [unfolded One_nat_def] k)
  with o0 o1 o2 g(2) show ?thesis by blast
qed

subsection \<open>clone\<close>



















subsection \<open>save and load: the round trip\<close>

text \<open>
  The views of an instance depend only on the instances they visit.
\<close>

lemma views_items_frame:
  assumes "\<And>b ns. nodes_of n h b = Some ns \<Longrightarrow> \<forall>c \<in> set ns. g ! c = h ! c
      \<Longrightarrow> nodes_of n g b = Some ns \<and> tree_of n g b = tree_of n h b"
  shows "nodes_items (nodes_of n h) kvs = Some ns \<Longrightarrow> \<forall>c \<in> set ns. g ! c = h ! c
    \<Longrightarrow> nodes_items (nodes_of n g) kvs = Some ns
        \<and> tree_items (tree_of n g) kvs = tree_items (tree_of n h) kvs"
proof (induction kvs arbitrary: ns)
  case Nil
  then show ?case by simp
next
  case (Cons kv kvs)
  obtain k v where kv: "kv = (k, v)" by (cases kv)
  show ?case
  proof (cases v)
    case (Data d)
    with Cons kv show ?thesis by simp
  next
    case (Node b)
    with Cons.prems(1) kv obtain nb nr where
      nb: "nodes_of n h b = Some nb" and nr: "nodes_items (nodes_of n h) kvs = Some nr"
      and ns: "ns = nb @ nr"
      by (auto split: option.splits)
    from assms [OF nb] Cons.prems(2) ns
    have b: "nodes_of n g b = Some nb" "tree_of n g b = tree_of n h b" by auto
    from Cons.IH [OF nr] Cons.prems(2) ns
    have r: "nodes_items (nodes_of n g) kvs = Some nr"
      "tree_items (tree_of n g) kvs = tree_items (tree_of n h) kvs" by auto
    from b r ns kv Node show ?thesis by (simp split: option.splits)
  qed
qed

lemma views_frame:
  "nodes_of n h b = Some ns \<Longrightarrow> \<forall>c \<in> set ns. g ! c = h ! c
    \<Longrightarrow> nodes_of n g b = Some ns \<and> tree_of n g b = tree_of n h b"
proof (induction n arbitrary: b ns)
  case 0
  then show ?case by simp
next
  case (Suc n)
  from Suc.prems(1) obtain nr where nr: "nodes_items (nodes_of n h) (attrs (h ! b)) = Some nr"
    and ns: "ns = b # nr" by auto
  from Suc.prems(2) ns have gb: "g ! b = h ! b" by simp
  have "nodes_items (nodes_of n g) (attrs (h ! b)) = Some nr
      \<and> tree_items (tree_of n g) (attrs (h ! b)) = tree_items (tree_of n h) (attrs (h ! b))"
    using nr
  proof (rule views_items_frame [rotated])
    show "\<forall>c \<in> set nr. g ! c = h ! c" using Suc.prems(2) ns by simp
  qed (rule Suc.IH)
  with gb ns show ?case by simp
qed

lemma update_in_place:
  "k \<notin> fst ` set pre \<Longrightarrow> AList.update k v (pre @ (k, w) # r) = pre @ (k, v) # r"
  by (induction pre) auto

lemma map_of_in_place:
  "k \<notin> fst ` set pre \<Longrightarrow> map_of (pre @ (k, w) # r) k = Some w"
  by (induction pre) auto

lemma shape_Leaf: "shape_of t = Leaf w \<Longrightarrow> \<exists>v. t = Leaf v"
  by (cases t) auto

lemma shape_Sub: "shape_of t = Sub c ss \<Longrightarrow> \<exists>its. t = Sub c its"
  by (cases t) auto

lemma tree_of_Sub: "tree_of n h a = Some t \<Longrightarrow> \<exists>c its. t = Sub c its"
  by (cases n) auto

lemma tree_items_keys: "tree_items f kvs = Some its \<Longrightarrow> map fst its = map fst kvs"
proof (induction kvs arbitrary: its)
  case Nil
  then show ?case by simp
next
  case (Cons kv kvs)
  obtain k v where kv: "kv = (k, v)" by (cases kv)
  show ?case
  proof (cases v)
    case (Data d)
    with Cons kv show ?thesis by auto
  next
    case (Node b)
    with Cons kv show ?thesis by (auto split: option.splits)
  qed
qed

lemma from_dict_loop:
  assumes M: "loads n"
  shows "attrs (g ! a) = pre @ kvs \<Longrightarrow> distinct (map fst (pre @ kvs)) \<Longrightarrow> a < length g
    \<Longrightarrow> tree_items (tree_of n g) kvs = Some its0
    \<Longrightarrow> map (\<lambda>kt. (fst kt, shape_of (snd kt))) its0 = map (\<lambda>kt. (fst kt, shape_of (snd kt))) its
    \<Longrightarrow> list_all (\<lambda>kt. distinct_keys (snd kt)) its
    \<Longrightarrow> nodes_items (nodes_of n g) kvs = Some rest \<Longrightarrow> distinct rest \<Longrightarrow> a \<notin> set rest
    \<Longrightarrow> \<forall>c \<in> set rest. c < length g
    \<Longrightarrow> \<exists>g' kvs'. from_dict g out a (map (\<lambda>kt. (fst kt, data_of (snd kt))) its) strict
            = (g', out, None)
          \<and> attrs (g' ! a) = pre @ kvs' \<and> class_attrs (g' ! a) = class_attrs (g ! a)
          \<and> tree_items (tree_of n g') kvs' = Some its
          \<and> nodes_items (nodes_of n g') kvs' = Some rest
          \<and> length g' = length g \<and> (\<forall>c. c \<noteq> a \<and> c \<notin> set rest \<longrightarrow> g' ! c = g ! c)"
proof (induction kvs arbitrary: pre g its0 its rest)
  case Nil
  then have "its0 = []" by simp
  with Nil.prems(5) have "its = []" by simp
  with Nil show ?case by simp
next
  case (Cons kv kvs)
  obtain k v where kv: "kv = (k, v)" by (cases kv)
  have att: "attrs (g ! a) = pre @ (k, v) # kvs" using Cons.prems(1) kv by simp
  have fresh: "k \<notin> fst ` set pre" using Cons.prems(2) kv by auto
  have has: "hasattr (g ! a) k" using att by (simp add: hasattr_def keys_def)
  have get: "getitem (g ! a) k = Some v"
    unfolding getitem_def att by (rule map_of_in_place [OF fresh])
  show ?case
  proof (cases v)
    case (Data v0)
    from Cons.prems(4) kv Data obtain its01 where
      i01: "tree_items (tree_of n g) kvs = Some its01" and its0: "its0 = (k, Leaf v0) # its01"
      by auto
    from Cons.prems(5) its0 obtain t its1 where its: "its = (k, t) # its1"
      and sh: "shape_of t = Leaf PNone"
      and sh1: "map (\<lambda>kt. (fst kt, shape_of (snd kt))) its01
          = map (\<lambda>kt. (fst kt, shape_of (snd kt))) its1"
      by (cases its) auto
    from shape_Leaf [OF sh] obtain w where t: "t = Leaf w" by blast
    let ?g1 = "setitem g a k (Data w)"
    have att1: "attrs (?g1 ! a) = (pre @ [(k, Data w)]) @ kvs"
      using att Data fresh Cons.prems(3) by (simp add: setitem_def update_in_place)
    have nr: "nodes_items (nodes_of n g) kvs = Some rest" using Cons.prems(7) kv Data by simp
    have same: "\<forall>c \<in> set rest. ?g1 ! c = g ! c"
    proof
      fix c assume "c \<in> set rest"
      with Cons.prems(9) have "c \<noteq> a" by auto
      then show "?g1 ! c = g ! c" by simp
    qed
    from views_items_frame [of n g ?g1 kvs rest, OF views_frame nr same] i01
    have v1: "nodes_items (nodes_of n ?g1) kvs = Some rest"
      "tree_items (tree_of n ?g1) kvs = Some its01" by simp_all
    have d1: "distinct (map fst ((pre @ [(k, Data w)]) @ kvs))" using Cons.prems(2) kv by simp
    have la: "list_all (\<lambda>kt. distinct_keys (snd kt)) its1" using Cons.prems(6) its by simp
    from Cons.IH [OF att1 d1 _ v1(2) sh1 la v1(1) Cons.prems(8,9)] Cons.prems(3,10)
    obtain g' kvs' where r:
      "from_dict ?g1 out a (map (\<lambda>kt. (fst kt, data_of (snd kt))) its1) strict = (g', out, None)"
      "attrs (g' ! a) = (pre @ [(k, Data w)]) @ kvs'"
      "class_attrs (g' ! a) = class_attrs (?g1 ! a)"
      "tree_items (tree_of n g') kvs' = Some its1"
      "nodes_items (nodes_of n g') kvs' = Some rest"
      "length g' = length ?g1" "\<forall>c. c \<noteq> a \<and> c \<notin> set rest \<longrightarrow> g' ! c = ?g1 ! c"
      by auto
    have "from_dict g out a (map (\<lambda>kt. (fst kt, data_of (snd kt))) its) strict = (g', out, None)"
      using its t has get Data r(1) by simp
    moreover have "attrs (g' ! a) = pre @ ((k, Data w) # kvs')" using r(2) by simp
    moreover have "class_attrs (g' ! a) = class_attrs (g ! a)" using r(3) Cons.prems(3) by simp
    moreover have "tree_items (tree_of n g') ((k, Data w) # kvs') = Some its"
      using r(4) its t by simp
    moreover have "nodes_items (nodes_of n g') ((k, Data w) # kvs') = Some rest"
      using r(5) by simp
    moreover have "length g' = length g" using r(6) by simp
    moreover have "\<forall>c. c \<noteq> a \<and> c \<notin> set rest \<longrightarrow> g' ! c = g ! c" using r(7) by simp
    ultimately show ?thesis by blast
  next
    case (Node b)
    from Cons.prems(4) kv Node obtain t0b its01 where
      tb: "tree_of n g b = Some t0b" and
      i01: "tree_items (tree_of n g) kvs = Some its01" and its0: "its0 = (k, t0b) # its01"
      by (auto split: option.splits)
    from Cons.prems(7) kv Node obtain nsb rest1 where
      nb: "nodes_of n g b = Some nsb" and
      nr: "nodes_items (nodes_of n g) kvs = Some rest1" and rest: "rest = nsb @ rest1"
      by (auto split: option.splits)
    from Cons.prems(5) its0 obtain t its1 where its: "its = (k, t) # its1"
      and sh: "shape_of t0b = shape_of t"
      and sh1: "map (\<lambda>kt. (fst kt, shape_of (snd kt))) its01
          = map (\<lambda>kt. (fst kt, shape_of (snd kt))) its1"
      by (cases its) auto
    from tree_of_Sub [OF tb] obtain c0 ib0 where "t0b = Sub c0 ib0" by blast
    with sh have "shape_of t = Sub c0 (map (\<lambda>kt. (fst kt, shape_of (snd kt))) ib0)" by simp
    from shape_Sub [OF this] obtain itsb where t: "t = Sub c0 itsb" by blast
    have dk: "distinct_keys t" and la: "list_all (\<lambda>kt. distinct_keys (snd kt)) its1"
      using Cons.prems(6) its by simp_all
    have dn: "distinct nsb" "distinct rest1" "set nsb \<inter> set rest1 = {}"
      using Cons.prems(8) rest by auto
    have ln: "\<forall>c \<in> set nsb. c < length g" "\<forall>c \<in> set rest1. c < length g"
      using Cons.prems(10) rest by auto
    from M [unfolded loads_def, rule_format, of g b t0b nsb t out False] tb nb dn(1) ln(1) sh dk
    obtain g1 where g1: "from_dict g out b (dict_items t) False = (g1, out, None)"
      "tree_of n g1 b = Some t" "nodes_of n g1 b = Some nsb" "length g1 = length g"
      "\<forall>c. c \<notin> set nsb \<longrightarrow> g1 ! c = g ! c"
      by blast
    have anb: "a \<notin> set nsb" "a \<notin> set rest1" using Cons.prems(9) rest by auto
    have att1: "attrs (g1 ! a) = (pre @ [(k, Node b)]) @ kvs" using att Node g1(5) anb by simp
    have same: "\<forall>c \<in> set rest1. g1 ! c = g ! c" using g1(5) dn(3) by auto
    from views_items_frame [of n g g1 kvs rest1, OF views_frame nr same] i01
    have v1: "nodes_items (nodes_of n g1) kvs = Some rest1"
      "tree_items (tree_of n g1) kvs = Some its01" by simp_all
    have d1: "distinct (map fst ((pre @ [(k, Node b)]) @ kvs))" using Cons.prems(2) kv by simp
    have a1: "a < length g1" using Cons.prems(3) g1(4) by simp
    have l1: "\<forall>c \<in> set rest1. c < length g1" using ln(2) g1(4) by simp
    from Cons.IH [OF att1 d1 a1 v1(2) sh1 la v1(1) dn(2) anb(2) l1]
    obtain g' kvs' where r:
      "from_dict g1 out a (map (\<lambda>kt. (fst kt, data_of (snd kt))) its1) strict = (g', out, None)"
      "attrs (g' ! a) = (pre @ [(k, Node b)]) @ kvs'"
      "class_attrs (g' ! a) = class_attrs (g1 ! a)"
      "tree_items (tree_of n g') kvs' = Some its1"
      "nodes_items (nodes_of n g') kvs' = Some rest1"
      "length g' = length g1" "\<forall>c. c \<noteq> a \<and> c \<notin> set rest1 \<longrightarrow> g' ! c = g1 ! c"
      by auto
    have keepb: "\<forall>c \<in> set nsb. g' ! c = g1 ! c" using r(7) anb(1) dn(3) by auto
    from views_frame [OF g1(3) keepb] g1(2)
    have vb: "nodes_of n g' b = Some nsb" "tree_of n g' b = Some t" by simp_all
    have "from_dict g out a (map (\<lambda>kt. (fst kt, data_of (snd kt))) its) strict = (g', out, None)"
      using its t has get Node g1(1) r(1) by simp
    moreover have "attrs (g' ! a) = pre @ ((k, Node b) # kvs')" using r(2) by simp
    moreover have "class_attrs (g' ! a) = class_attrs (g ! a)" using r(3) g1(5) anb(1) by simp
    moreover have "tree_items (tree_of n g') ((k, Node b) # kvs') = Some its"
      using r(4) its vb(2) by simp
    moreover have "nodes_items (nodes_of n g') ((k, Node b) # kvs') = Some rest"
      using r(5) rest vb(1) by simp
    moreover have "length g' = length g" using r(6) g1(4) by simp
    moreover have "\<forall>c. c \<noteq> a \<and> c \<notin> set rest \<longrightarrow> g' ! c = g ! c"
      using r(7) g1(5) rest by simp
    ultimately show ?thesis by blast
  qed
qed

lemma loads_all: "loads n"
proof (induction n)
  case 0
  show ?case by (simp add: loads_def)
next
  case (Suc n)
  show ?case
    unfolding loads_def
  proof (intro allI impI, elim conjE)
    fix h out a t0 t ns strict
    assume t0: "tree_of (Suc n) h a = Some t0" and ns: "nodes_of (Suc n) h a = Some ns"
      and dn: "distinct ns" and ln: "\<forall>c \<in> set ns. c < length h"
      and sh: "shape_of t0 = shape_of t" and dk: "distinct_keys t"
    from t0 obtain its0 where i0: "tree_items (tree_of n h) (attrs (h ! a)) = Some its0"
      and t0': "t0 = Sub (class_attrs (h ! a)) its0" by auto
    from ns obtain rest where nr: "nodes_items (nodes_of n h) (attrs (h ! a)) = Some rest"
      and ns': "ns = a # rest" by auto
    from sh t0' have "shape_of t = Sub (class_attrs (h ! a))
        (map (\<lambda>kt. (fst kt, shape_of (snd kt))) its0)" by simp
    from shape_Sub [OF this] obtain its where t: "t = Sub (class_attrs (h ! a)) its" by blast
    from sh t0' t have shl: "map (\<lambda>kt. (fst kt, shape_of (snd kt))) its0
        = map (\<lambda>kt. (fst kt, shape_of (snd kt))) its" by simp
    then have "map fst (map (\<lambda>kt. (fst kt, shape_of (snd kt))) its0)
        = map fst (map (\<lambda>kt. (fst kt, shape_of (snd kt))) its)" by simp
    then have "map fst its0 = map fst its" by (simp add: comp_def)
    with tree_items_keys [OF i0] have keys: "map fst (attrs (h ! a)) = map fst its" by simp
    have d: "distinct (map fst ([] @ attrs (h ! a)))" using dk t keys by simp
    have la: "list_all (\<lambda>kt. distinct_keys (snd kt)) its" using dk t by simp
    have al: "a < length h" "distinct rest" "a \<notin> set rest" "\<forall>c \<in> set rest. c < length h"
      using dn ln ns' by auto
    from from_dict_loop [OF Suc.IH, of h a "[]" "attrs (h ! a)" its0 its rest out strict,
        OF _ d al(1) i0 shl la nr al(2,3,4)]
    obtain g' kvs' where r:
      "from_dict h out a (map (\<lambda>kt. (fst kt, data_of (snd kt))) its) strict = (g', out, None)"
      "attrs (g' ! a) = [] @ kvs'" "class_attrs (g' ! a) = class_attrs (h ! a)"
      "tree_items (tree_of n g') kvs' = Some its"
      "nodes_items (nodes_of n g') kvs' = Some rest"
      "length g' = length h" "\<forall>c. c \<noteq> a \<and> c \<notin> set rest \<longrightarrow> g' ! c = h ! c"
      by auto
    have "from_dict h out a (dict_items t) strict = (g', out, None)" using r(1) t by simp
    moreover have "tree_of (Suc n) g' a = Some t" using r(2,3,4) t by simp
    moreover have "nodes_of (Suc n) g' a = Some ns" using r(2,5) ns' by simp
    moreover have "\<forall>c. c \<notin> set ns \<longrightarrow> g' ! c = h ! c" using r(7) ns' by simp
    ultimately show "\<exists>h'. from_dict h out a (dict_items t) strict = (h', out, None)
        \<and> tree_of (Suc n) h' a = Some t \<and> nodes_of (Suc n) h' a = Some ns
        \<and> length h' = length h \<and> (\<forall>c. c \<notin> set ns \<longrightarrow> h' ! c = h ! c)"
      using r(6) by blast
  qed
qed

lemma update_fresh: "k \<notin> fst ` set conf \<Longrightarrow> AList.update k v conf = conf @ [(k, v)]"
  by (induction conf) auto

lemma as_dict_items_tree:
  assumes "\<And>b t. tree_of n h b = Some t \<Longrightarrow> json_tree lims t \<Longrightarrow> distinct_keys t
      \<Longrightarrow> as_dict_jsonable n lims h b = Some (Inr (data_of t))"
  shows "tree_items (tree_of n h) kvs = Some its \<Longrightarrow> list_all (\<lambda>kt. json_tree lims (snd kt)) its
    \<Longrightarrow> list_all (\<lambda>kt. distinct_keys (snd kt)) its
    \<Longrightarrow> distinct (map fst conf @ map fst kvs)
    \<Longrightarrow> as_dict_items lims (as_dict_jsonable n lims h) conf kvs
          = Some (Inr (conf @ map (\<lambda>kt. (fst kt, data_of (snd kt))) its))"
proof (induction kvs arbitrary: its conf)
  case Nil
  then show ?case by simp
next
  case (Cons kv kvs)
  obtain k v where kv: "kv = (k, v)" by (cases kv)
  have fresh: "k \<notin> fst ` set conf" using Cons.prems(4) kv by auto
  show ?case
  proof (cases v)
    case (Data d)
    from Cons.prems(1) kv Data obtain its1 where
      i1: "tree_items (tree_of n h) kvs = Some its1" and its: "its = (k, Leaf d) # its1" by auto
    have j: "jsonable lims d = Inr True" using Cons.prems(2) its by simp
    have dd: "distinct (map fst (conf @ [(k, d)]) @ map fst kvs)" using Cons.prems(4) kv by simp
    from Cons.IH [OF i1 _ _ dd] Cons.prems(2,3) its
    have "as_dict_items lims (as_dict_jsonable n lims h) (conf @ [(k, d)]) kvs
        = Some (Inr ((conf @ [(k, d)]) @ map (\<lambda>kt. (fst kt, data_of (snd kt))) its1))" by simp
    with kv Data j fresh its show ?thesis by (simp add: update_fresh)
  next
    case (Node b)
    from Cons.prems(1) kv Node obtain t its1 where tb: "tree_of n h b = Some t" and
      i1: "tree_items (tree_of n h) kvs = Some its1" and its: "its = (k, t) # its1"
      by (auto split: option.splits)
    have "json_tree lims t" "distinct_keys t" using Cons.prems(2,3) its by simp_all
    from assms [OF tb this] have ab: "as_dict_jsonable n lims h b = Some (Inr (data_of t))" .
    have dd: "distinct (map fst (conf @ [(k, data_of t)]) @ map fst kvs)"
      using Cons.prems(4) kv by simp
    from Cons.IH [OF i1 _ _ dd] Cons.prems(2,3) its
    have "as_dict_items lims (as_dict_jsonable n lims h) (conf @ [(k, data_of t)]) kvs
        = Some (Inr ((conf @ [(k, data_of t)]) @ map (\<lambda>kt. (fst kt, data_of (snd kt))) its1))"
      by simp
    with kv Node ab fresh its show ?thesis by (simp add: update_fresh)
  qed
qed

lemma as_dict_of_tree:
  "tree_of n h a = Some t \<Longrightarrow> json_tree lims t \<Longrightarrow> distinct_keys t
    \<Longrightarrow> as_dict_jsonable n lims h a = Some (Inr (data_of t))"
proof (induction n arbitrary: a t)
  case 0
  then show ?case by simp
next
  case (Suc n)
  from Suc.prems(1) obtain its where i: "tree_items (tree_of n h) (attrs (h ! a)) = Some its"
    and t: "t = Sub (class_attrs (h ! a)) its" by auto
  have d: "distinct (map fst ([]::(string \<times> pydata) list) @ map fst (attrs (h ! a)))"
    using Suc.prems(3) t tree_items_keys [OF i] by simp
  have "as_dict_items lims (as_dict_jsonable n lims h) [] (attrs (h ! a))
      = Some (Inr ([] @ map (\<lambda>kt. (fst kt, data_of (snd kt))) its))"
    using i _ _ d
  proof (rule as_dict_items_tree [rotated])
    show "list_all (\<lambda>kt. json_tree lims (snd kt)) its" using Suc.prems(2) t by simp
    show "list_all (\<lambda>kt. distinct_keys (snd kt)) its" using Suc.prems(3) t by simp
  qed (rule Suc.IH)
  with t show ?case by simp
qed

lemma json_value_tree: "json_tree lims t \<Longrightarrow> json_value (data_of t) = data_of t"
proof (induction t)
  case (Leaf v)
  then show ?case by simp
next
  case (Sub cls items)
  have "json_value (data_of (snd kt)) = data_of (snd kt)" if "kt \<in> set items" for kt
  proof -
    from that Sub.prems have "json_tree lims (snd kt)" by (simp add: list_all_iff)
    moreover have "snd kt \<in> Basic_BNFs.snds kt" by (cases kt) simp
    ultimately show ?thesis using Sub.IH that by blast
  qed
  then show ?case by (simp add: comp_def)
qed

lemma save_writes:
  assumes "save k lims h a path fs = Some (fs', None)"
  shows "\<exists>conf. as_dict_jsonable k lims h a = Some (Inr conf)
      \<and> map_of (files fs') path = Some (Json (json_value conf)) \<and> path \<notin> set (dirs fs')"
proof -
  let ?d = "os_path_dirname path"
  obtain fs1 e1 where m: "(if \<not> os_path_exists fs ?d then os_makedirs fs ?d else (fs, None))
      = (fs1, e1)" by (cases "if \<not> os_path_exists fs ?d then os_makedirs fs ?d else (fs, None)")
  from assms m have e1: "e1 = None" by (auto simp: save_def Let_def split: option.splits)
  from assms m e1 obtain conf where conf: "as_dict_jsonable k lims h a = Some (Inr conf)"
    by (auto simp: save_def Let_def split: option.splits sum.splits)
  obtain fs2 e2 where o: "open_w fs1 path = (fs2, e2)" by (cases "open_w fs1 path")
  from assms m e1 conf o have e2: "e2 = None"
    by (auto simp: save_def Let_def split: option.splits)
  from assms m e1 conf o e2 obtain wr where t: "json_dump lims conf = Inr wr"
    and fs': "fs' = fs2\<lparr>files := AList.update path wr (files fs2)\<rparr>"
    by (auto simp: save_def Let_def split: option.splits sum.splits)
  from t have wr: "wr = Json (json_value conf)"
    by (auto simp: json_dump_def split: option.splits)
  from o e2 have "path \<notin> set (dirs fs2)"
    by (auto simp: open_w_def split: if_splits)
  with fs' wr conf show ?thesis by (simp add: update_conv')
qed

text \<open>
  Claim C3, amended.  Let the original unfold to a tree whose plain values are JSON values
  that the decoder returns unchanged (no tuple and no enumeration member, also inside
  containers), and let \<open>a'\<close> be an instance of the same shape (the same classes and field
  names, nested instances at the same fields) that shares no nested instance.  If \<open>save\<close>
  succeeds, then \<open>load\<close> of the same path into \<open>a'\<close> raises nothing, prints nothing and
  leaves \<open>a'\<close> with the tree of the original, so equal to it in every field, and it
  changes no instance outside \<open>a'\<close>.
\<close>

theorem save_load_roundtrip:
  assumes "tree_of n h a = Some t" and "json_tree lims t" and "distinct_keys t"
    and "tree_of n h a' = Some t0" and "shape_of t0 = shape_of t" and "unshared n h a'"
    and "save k lims h a path fs = Some (fs', None)"
  shows "\<exists>h'. load h out a' path fs' = (h', out, None) \<and> tree_of n h' a' = Some t
      \<and> length h' = length h
      \<and> (\<forall>ns c. nodes_of n h a' = Some ns \<and> c \<notin> set ns \<longrightarrow> h' ! c = h ! c)"
proof -
  from save_writes [OF assms(7)] obtain conf where
    conf: "as_dict_jsonable k lims h a = Some (Inr conf)"
    and content: "map_of (files fs') path = Some (Json (json_value conf))"
    and nodir: "path \<notin> set (dirs fs')"
    by blast
  from as_dict_of_tree [OF assms(1,2,3)] have "as_dict_jsonable n lims h a = Some (Inr (data_of t))" .
  from as_dict_jsonable_mono [OF this, of "max n k"] as_dict_jsonable_mono [OF conf, of "max n k"]
  have "conf = data_of t" by simp
  with json_value_tree [OF assms(2)] have jv: "json_value conf = data_of t" by simp
  from tree_of_Sub [OF assms(1)] obtain c its where "t = Sub c its" by blast
  then have "data_of t = PDict (dict_items t)" by simp
  with content jv nodir have ld: "load h out a' path fs' = from_dict h out a' (dict_items t) False"
    by (simp add: load_def)
  from assms(6) obtain ns where ns: "nodes_of n h a' = Some ns" "distinct ns"
    "\<forall>c \<in> set ns. c < length h"
    by (auto simp: unshared_def list_all_iff split: option.splits)
  from loads_all [of n, unfolded loads_def, rule_format, of h a' t0 ns t out False]
    assms(4,5,3) ns
  obtain h' where "from_dict h out a' (dict_items t) False = (h', out, None)"
    "tree_of n h' a' = Some t" "length h' = length h" "\<forall>c. c \<notin> set ns \<longrightarrow> h' ! c = h ! c"
    by blast
  with ld ns(1) show ?thesis by auto
qed

lemma dirname_runs: "os_path_dirname ''runs/conf.json'' = ''runs''"
  by (simp add: os_path_dirname_def os_path_split_def rstrip_sep_def)

lemma save_ex_tuple:
  "save 1 cpython_limits ex_tuple 0 ''runs/conf.json'' ex_fs = Some (ex_saved, None)"
  by (simp add: save_def dirname_runs os_path_exists_def ex_fs_def ex_tuple_def open_w_def
      os_path_split_def json_dump_def ex_saved_def jsonable_def dumps_small_int cpython_depth)

lemma load_ex_tuple: "load ex_tuple [] 1 ''runs/conf.json'' ex_saved = (ex_loaded, [], None)"
  by (simp add: load_def ex_saved_def ex_tuple_def ex_loaded_def hasattr_def keys_def getitem_def
      setitem_def)

text \<open>
  The claim as stated fails for a tuple: the encoder accepts it, so the field is
  JSON-representable and is saved, but the decoder returns a list, and a list is not equal
  to a tuple.
\<close>

theorem save_load_tuple_counterexample:
  "jsonable cpython_limits (PTuple [PInt 1, PInt 2]) = Inr True
   \<and> tree_of 1 ex_tuple 0
       = Some (Sub [] [(''lr'', Leaf (PFloat (1 / 10))),
                       (''channel_mult'', Leaf (PTuple [PInt 1, PInt 2]))])
   \<and> tree_of 1 ex_tuple 1
       = Some (Sub [] [(''lr'', Leaf (PFloat (2 / 10))),
                       (''channel_mult'', Leaf (PTuple [PInt 1, PInt 1]))])
   \<and> unshared 1 ex_tuple 1
   \<and> save 1 cpython_limits ex_tuple 0 ''runs/conf.json'' ex_fs = Some (ex_saved, None)
   \<and> load ex_tuple [] 1 ''runs/conf.json'' ex_saved = (ex_loaded, [], None)
   \<and> tree_of 1 ex_loaded 1
       = Some (Sub [] [(''lr'', Leaf (PFloat (1 / 10))),
                       (''channel_mult'', Leaf (PList [PInt 1, PInt 2]))])
   \<and> tree_of 1 ex_loaded 1 \<noteq> tree_of 1 ex_tuple 0"
proof -
  have t: "tree_of 1 ex_tuple 0
       = Some (Sub [] [(''lr'', Leaf (PFloat (1 / 10))),
                       (''channel_mult'', Leaf (PTuple [PInt 1, PInt 2]))])"
    "tree_of 1 ex_tuple 1
       = Some (Sub [] [(''lr'', Leaf (PFloat (2 / 10))),
                       (''channel_mult'', Leaf (PTuple [PInt 1, PInt 1]))])"
    "tree_of 1 ex_loaded 1
       = Some (Sub [] [(''lr'', Leaf (PFloat (1 / 10))),
                       (''channel_mult'', Leaf (PList [PInt 1, PInt 2]))])"
    by (simp_all add: ex_tuple_def ex_loaded_def)
  have u: "unshared 1 ex_tuple 1" by (simp add: unshared_def ex_tuple_def)
  have j: "jsonable cpython_limits (PTuple [PInt 1, PInt 2]) = Inr True"
    by (simp add: jsonable_def dumps_small_int cpython_depth)
  from j t u save_ex_tuple load_ex_tuple show ?thesis by simp
qed

theorem save_load_roundtrip_witness:
  "tree_of 2 ex_rt 0 = Some ex_rt_tree \<and> json_tree cpython_limits ex_rt_tree \<and> distinct_keys ex_rt_tree
   \<and> unshared 2 ex_rt 2
   \<and> save 2 cpython_limits ex_rt 0 ''runs/conf.json'' ex_fs = Some (ex_rt_saved, None)
   \<and> (\<exists>h'. load ex_rt [] 2 ''runs/conf.json'' ex_rt_saved = (h', [], None)
         \<and> tree_of 2 h' 2 = Some ex_rt_tree \<and> h' ! 0 = ex_rt ! 0 \<and> h' ! 1 = ex_rt ! 1)"
proof -
  have t: "tree_of 2 ex_rt 0 = Some ex_rt_tree"
    by (simp add: ex_rt_def ex_rt_tree_def numeral_2_eq_2)
  have j: "json_tree cpython_limits ex_rt_tree" "distinct_keys ex_rt_tree"
    by (simp_all add: ex_rt_tree_def jsonable_def dumps_small_int cpython_depth)
  have t0: "tree_of 2 ex_rt 2
      = Some (Sub [] [(''lr'', Leaf (PFloat (2 / 10))),
                      (''net'', Sub [] [(''mult'', Leaf (PList [])), (''name'', Leaf (PStr []))])])"
    by (simp add: ex_rt_def numeral_2_eq_2)
  have sh: "shape_of (Sub [] [(''lr'', Leaf (PFloat (2 / 10))),
                      (''net'', Sub [] [(''mult'', Leaf (PList [])), (''name'', Leaf (PStr []))])])
      = shape_of ex_rt_tree"
    by (simp add: ex_rt_tree_def)
  have n: "nodes_of 2 ex_rt 2 = Some [2, 3]" by (simp add: ex_rt_def numeral_2_eq_2)
  have u: "unshared 2 ex_rt 2" by (simp add: unshared_def n) (simp add: ex_rt_def)
  have s: "save 2 cpython_limits ex_rt 0 ''runs/conf.json'' ex_fs = Some (ex_rt_saved, None)"
    by (simp add: save_def dirname_runs os_path_exists_def ex_fs_def ex_rt_def open_w_def
      os_path_split_def json_dump_def ex_rt_saved_def numeral_2_eq_2 jsonable_def
      dumps_small_int cpython_depth)
  from save_load_roundtrip [OF t j t0 sh u s, of "[]"]
  obtain h' where r: "load ex_rt [] 2 ''runs/conf.json'' ex_rt_saved = (h', [], None)"
    "tree_of 2 h' 2 = Some ex_rt_tree"
    "\<forall>ns c. nodes_of 2 ex_rt 2 = Some ns \<and> c \<notin> set ns \<longrightarrow> h' ! c = ex_rt ! c"
    by blast
  from r(3) n have "h' ! 0 = ex_rt ! 0" "h' ! 1 = ex_rt ! 1" by auto
  with t j u s r(1,2) show ?thesis by blast
qed

end
